theory Spec2Isabelle
  imports Complex_Main "HOL-Library.Sublist" "HOL-Library.Log_Nat"
begin

section \<open>The data-quality engine of AutoCSV Cleaner\<close>

text \<open>
  The engine is the pair of callbacks \<open>detectIssues\<close> and \<open>cleanData\<close> of the
  component \<open>AutoCleanCSV\<close>, with their local helpers \<open>quantile\<close> and \<open>median\<close>.
  The embedding follows the TypeScript text line by line.

  Conventions of the embedding:
  \<^item> A JavaScript string is a \<open>string\<close>; a \<open>char\<close> stands for the UTF-16 code unit of
    the same number, so the model covers the code units \<open>0x00\<close> to \<open>0xFF\<close>.
  \<^item> A JavaScript number is a \<open>number\<close>: an IEEE 754 double, with \<open>NaN\<close> and the
    two infinities, and every arithmetic operation rounded as the engine rounds it.
  \<^item> The built-ins \<open>parseFloat\<close> and \<open>Number.prototype.toString\<close> are parameters
    (\<open>pf\<close> and \<open>ns\<close>) of every function that calls them, so each theorem holds for
    every parser and printer.
  \<^item> A cell of a table has type \<open>any\<close> in the source; the model has the values
    \<open>undefined\<close>, strings and numbers.
  \<^item> An object used as a dictionary is an association list in the order in which
    JavaScript enumerates own properties: array-index keys in ascending numeric order,
    then the other keys in insertion order. Keys are ordinary data properties
    (not \<open>__proto__\<close>, and nothing is looked up in \<open>Object.prototype\<close>).
\<close>

subsection \<open>Strings\<close>

definition js_space :: "char \<Rightarrow> bool" where
  \<comment> \<open>the white space and line terminators that \<open>String.prototype.trim\<close> strips,
      among the code units below \<open>0x100\<close>\<close>
  "js_space c = (c \<in> set [CHR 0x09, CHR 0x0A, CHR 0x0B, CHR 0x0C, CHR 0x0D, CHR 0x20, CHR 0xA0])"

definition trim :: "string \<Rightarrow> string" where
  "trim s = rev (dropWhile js_space (rev (dropWhile js_space s)))"

definition nbsp :: char where
  "nbsp = CHR 0xA0"

definition replace_nbsp :: "string \<Rightarrow> string" where
  \<comment> \<open>\<open>s.replace(re, ' ')\<close> for the global pattern \<open>re\<close> of the one code unit \<open>0xA0\<close>\<close>
  "replace_nbsp s = map (\<lambda>c. if c = nbsp then CHR 0x20 else c) s"

definition padStart :: "nat \<Rightarrow> char \<Rightarrow> string \<Rightarrow> string" where
  \<comment> \<open>\<open>s.padStart(n, c)\<close> for a one-character filler\<close>
  "padStart n c s = replicate (n - length s) c @ s"

definition digit_char :: "char \<Rightarrow> bool" where
  "digit_char c = (c \<in> set ''0123456789'')"

definition digit_val :: "char \<Rightarrow> nat" where
  "digit_val c = of_char c - 48"

definition dec_value :: "string \<Rightarrow> nat" where
  "dec_value s = foldl (\<lambda>n c. 10 * n + digit_val c) 0 s"

definition all_digits :: "string \<Rightarrow> bool" where
  \<comment> \<open>\<open>/^\d+$/.test(s)\<close>\<close>
  "all_digits s = (s \<noteq> [] \<and> list_all digit_char s)"

subsection \<open>Numbers\<close>

text \<open>
  A double is \<open>NaN\<close>, an infinity, or a finite value, kept as the rational number it
  denotes. The two zeros are the one value \<open>Fin 0\<close>: the source never divides by a
  variable, and every other operation it uses (\<open>+\<close>, \<open>-\<close>, \<open>*\<close>, \<open>/ 2\<close>, \<open><\<close>,
  \<open>>\<close>, \<open>Math.floor\<close>, truthiness, \<open>toString\<close>, \<open>JSON.stringify\<close>) gives the
  same result for both.

  \<open>double_of\<close> is the rounding of IEEE 754 in the default mode: to the nearest double,
  a tie to the one with an even significand, with 53 bits of significand above
  \<open>2 ^ (- 1022)\<close> and multiples of \<open>2 ^ (- 1074)\<close> below, and to an infinity from
  \<open>2 ^ 1024 - 2 ^ 970\<close> on.
\<close>

datatype number = NaN | NegInf | Fin rat | PosInf

definition binade :: "rat \<Rightarrow> int" where
  \<comment> \<open>the exponent \<open>e\<close> with \<open>2 ^ e \<le> a < 2 ^ (e + 1)\<close>, for \<open>a > 0\<close>\<close>
  "binade a =
     (case quotient_of a of (p, q) \<Rightarrow>
        let d = bitlen p - bitlen q in if 2 powi d \<le> a then d else d - 1)"

definition round_half_even :: "rat \<Rightarrow> int" where
  "round_half_even x =
     (let f = \<lfloor>x\<rfloor>; d = x - of_int f
      in if d < 1 / 2 then f else if 1 / 2 < d then f + 1 else if even f then f else f + 1)"

definition double_of :: "rat \<Rightarrow> number" where
  "double_of x =
     (if x = 0 then Fin 0
      else
        let a = \<bar>x\<bar>;
            k = max (binade a) (- 1022) - 52;
            y = of_int (round_half_even (a / 2 powi k)) * 2 powi k
        in if 2 ^ 1024 \<le> y then (if x < 0 then NegInf else PosInf)
           else Fin (if x < 0 then - y else y))"

instantiation number :: "{uminus, plus, minus, times, ord}"
begin

fun uminus_number :: "number \<Rightarrow> number" where
  "- NaN = NaN"
| "- NegInf = PosInf"
| "- Fin a = Fin (- a)"
| "- PosInf = NegInf"

fun plus_number :: "number \<Rightarrow> number \<Rightarrow> number" where
  "Fin a + Fin b = double_of (a + b)"
| "NaN + y = NaN"
| "x + NaN = NaN"
| "PosInf + NegInf = NaN"
| "NegInf + PosInf = NaN"
| "PosInf + y = PosInf"
| "x + PosInf = PosInf"
| "NegInf + y = NegInf"
| "x + NegInf = NegInf"

definition minus_number :: "number \<Rightarrow> number \<Rightarrow> number" where
  "x - y = x + (- y)" for x y :: number

fun times_number :: "number \<Rightarrow> number \<Rightarrow> number" where
  "Fin a * Fin b = double_of (a * b)"
| "NaN * y = NaN"
| "x * NaN = NaN"
| "PosInf * Fin b = (if b = 0 then NaN else if 0 < b then PosInf else NegInf)"
| "NegInf * Fin b = (if b = 0 then NaN else if 0 < b then NegInf else PosInf)"
| "Fin a * PosInf = (if a = 0 then NaN else if 0 < a then PosInf else NegInf)"
| "Fin a * NegInf = (if a = 0 then NaN else if 0 < a then NegInf else PosInf)"
| "PosInf * PosInf = PosInf"
| "PosInf * NegInf = NegInf"
| "NegInf * PosInf = NegInf"
| "NegInf * NegInf = PosInf"

fun less_number :: "number \<Rightarrow> number \<Rightarrow> bool" where
  "Fin a < Fin b = (a < b)"
| "NaN < y = False"
| "x < NaN = False"
| "x < NegInf = False"
| "NegInf < y = True"
| "PosInf < y = False"
| "x < PosInf = True"

definition less_eq_number :: "number \<Rightarrow> number \<Rightarrow> bool" where
  "x \<le> y \<longleftrightarrow> x < y \<or> (x = y \<and> x \<noteq> NaN)" for x y :: number

instance ..

end

fun half :: "number \<Rightarrow> number" where
  \<comment> \<open>\<open>x / 2\<close>\<close>
  "half (Fin a) = double_of (a / 2)"
| "half x = x"

fun Math_floor :: "number \<Rightarrow> number" where
  "Math_floor (Fin a) = Fin (of_int \<lfloor>a\<rfloor>)"
| "Math_floor x = x"

definition isNaN :: "number \<Rightarrow> bool" where
  "isNaN x = (x = NaN)"

definition ToNumber :: "number option \<Rightarrow> number" where
  \<comment> \<open>a value that is a number or \<open>undefined\<close>, as an operand of arithmetic\<close>
  "ToNumber v = (case v of None \<Rightarrow> NaN | Some x \<Rightarrow> x)"

text \<open>
  \<open>[...xs].sort((a, b) => a - b)\<close>. The comparator is negative, zero or positive as
  \<open>a\<close> is below, equal to or above \<open>b\<close>: the difference of two different doubles
  never rounds to zero, a difference that overflows keeps its sign, and the
  difference of two equal infinities is \<open>NaN\<close>, which \<open>sort\<close> takes as zero. So the
  result is the array in ascending order. (With \<open>NaN\<close> in the array the order is up to
  the engine; both callers pass arrays without \<open>NaN\<close>.)
\<close>

fun insert_number :: "number \<Rightarrow> number list \<Rightarrow> number list" where
  "insert_number x [] = [x]"
| "insert_number x (y # ys) = (if x < y then x # y # ys else y # insert_number x ys)"

definition sort_numbers :: "number list \<Rightarrow> number list" where
  "sort_numbers xs = foldr insert_number xs []"

definition array_at :: "number list \<Rightarrow> number \<Rightarrow> number option" where
  \<comment> \<open>\<open>xs[i]\<close> for a number \<open>i\<close>: \<open>undefined\<close> unless \<open>i\<close> is an index of the array\<close>
  "array_at xs i =
     (case i of
        Fin r \<Rightarrow>
          if r = of_int \<lfloor>r\<rfloor> \<and> 0 \<le> r \<and> nat \<lfloor>r\<rfloor> < length xs then Some (xs ! nat \<lfloor>r\<rfloor>)
          else None
      | _ \<Rightarrow> None)"

subsection \<open>Values and objects\<close>

datatype cell = Undefined | Str string | Num number

fun truthy :: "cell \<Rightarrow> bool" where
  "truthy Undefined = False"
| "truthy (Str s) = (s \<noteq> [])"
| "truthy (Num x) = (x \<noteq> Fin 0 \<and> x \<noteq> NaN)"

type_synonym 'v obj = "(string \<times> 'v) list"

definition is_array_index :: "string \<Rightarrow> bool" where
  \<comment> \<open>the canonical numeric strings of \<open>0 .. 2^32 - 2\<close>\<close>
  "is_array_index k =
     (all_digits k \<and> (length k = 1 \<or> hd k \<noteq> CHR ''0'') \<and> dec_value k < 2 ^ 32 - 1)"

definition obj_keys :: "'v obj \<Rightarrow> string list" where
  \<comment> \<open>\<open>Object.keys(ob)\<close>\<close>
  "obj_keys ob = map fst ob"

fun obj_insert :: "string \<Rightarrow> 'v \<Rightarrow> 'v obj \<Rightarrow> 'v obj" where
  "obj_insert k v [] = [(k, v)]"
| "obj_insert k v ((k', v') # ob) =
     (if is_array_index k \<and> (is_array_index k' \<longrightarrow> dec_value k < dec_value k')
      then (k, v) # (k', v') # ob
      else (k', v') # obj_insert k v ob)"

fun obj_replace :: "string \<Rightarrow> 'v \<Rightarrow> 'v obj \<Rightarrow> 'v obj" where
  "obj_replace k v [] = []"
| "obj_replace k v ((k', v') # ob) =
     (if k' = k then (k, v) # ob else (k', v') # obj_replace k v ob)"

definition obj_set :: "string \<Rightarrow> 'v \<Rightarrow> 'v obj \<Rightarrow> 'v obj" where
  \<comment> \<open>\<open>ob[k] = v\<close>, and also \<open>{...ob, [k]: v}\<close>: an existing key keeps its place\<close>
  "obj_set k v ob = (if k \<in> set (obj_keys ob) then obj_replace k v ob else obj_insert k v ob)"

definition obj_get :: "cell obj \<Rightarrow> string \<Rightarrow> cell" where
  \<comment> \<open>\<open>ob[k]\<close>\<close>
  "obj_get ob k = (case map_of ob k of None \<Rightarrow> Undefined | Some v \<Rightarrow> v)"

definition cell_at :: "cell list \<Rightarrow> nat \<Rightarrow> cell" where
  \<comment> \<open>\<open>row[index]\<close>: reading past the end of an array gives \<open>undefined\<close>\<close>
  "cell_at row i = (if i < length row then row ! i else Undefined)"

definition or_empty :: "cell \<Rightarrow> cell" where
  \<comment> \<open>\<open>v || ''\<close>\<close>
  "or_empty v = (if truthy v then v else Str [])"

fun toString :: "(number \<Rightarrow> string) \<Rightarrow> cell \<Rightarrow> string" where
  \<comment> \<open>\<open>v?.toString() || ''\<close>. The source calls \<open>v.toString()\<close> without \<open>?.\<close> only
      behind \<open>!v ||\<close> or \<open>v &&\<close>, where \<open>v\<close> is not \<open>undefined\<close> and the two agree.\<close>
  "toString ns Undefined = []"
| "toString ns (Str s) = s"
| "toString ns (Num x) = ns x"

definition toObject :: "string list \<Rightarrow> cell list \<Rightarrow> cell obj" where
  "toObject headers row =
     fold (\<lambda>(header, index) ob. obj_set header (or_empty (cell_at row index)) ob)
       (zip headers [0..<length headers]) []"

definition toObjectData :: "string list \<Rightarrow> cell list list \<Rightarrow> cell obj list" where
  "toObjectData headers data = map (toObject headers) data"

subsection \<open>Stats helpers\<close>

text \<open>
  The lengths and the index \<open>mid\<close> are natural numbers: the length of an array is
  below \<open>2 ^ 32\<close>, where the double arithmetic of the source on them is exact.
\<close>

definition quantile :: "number list \<Rightarrow> number \<Rightarrow> number option" where
  \<comment> \<open>\<open>None\<close> is the result \<open>undefined\<close>; an operand \<open>sorted[base]\<close> that is
      \<open>undefined\<close> is \<open>NaN\<close> in the sum\<close>
  "quantile arr q =
     (if length arr = 0 then Some (Fin 0)
      else
        let sorted' = sort_numbers arr;
            pos = Fin (of_nat (length sorted' - 1)) * q;
            base = Math_floor pos;
            rest = pos - base
        in case array_at sorted' (base + Fin 1) of
             Some hi \<Rightarrow>
               Some (ToNumber (array_at sorted' base)
                     + rest * (hi - ToNumber (array_at sorted' base)))
           | None \<Rightarrow> array_at sorted' base)"

definition median :: "number list \<Rightarrow> number" where
  "median values =
     (if length values = 0 then Fin 0
      else
        let sorted' = sort_numbers values;
            mid = length sorted' div 2
        in if length sorted' mod 2 = 0
           then half (sorted' ! (mid - 1) + sorted' ! mid)
           else sorted' ! mid)"

subsection \<open>Library functions\<close>

text \<open>
  \<open>JSON.stringify\<close> of an object whose values are strings and numbers; a property
  whose value is \<open>undefined\<close> is left out, and a number that is not finite is
  written \<open>null\<close>.
\<close>

definition hex_digit :: "nat \<Rightarrow> char" where
  "hex_digit n = ''0123456789abcdef'' ! (n mod 16)"

definition json_char :: "char \<Rightarrow> string" where
  "json_char c =
     (if c = CHR 0x22 then [CHR 0x5C, CHR 0x22]
      else if c = CHR 0x5C then [CHR 0x5C, CHR 0x5C]
      else if c = CHR 0x08 then [CHR 0x5C, CHR ''b'']
      else if c = CHR 0x0C then [CHR 0x5C, CHR ''f'']
      else if c = CHR 0x0A then [CHR 0x5C, CHR ''n'']
      else if c = CHR 0x0D then [CHR 0x5C, CHR ''r'']
      else if c = CHR 0x09 then [CHR 0x5C, CHR ''t'']
      else if (of_char c :: nat) < 32
        then [CHR 0x5C, CHR ''u'', CHR ''0'', CHR ''0'',
              hex_digit (of_char c div 16), hex_digit (of_char c)]
      else [c])"

definition json_quote :: "string \<Rightarrow> string" where
  "json_quote s = CHR 0x22 # concat (map json_char s) @ [CHR 0x22]"

fun json_value :: "(number \<Rightarrow> string) \<Rightarrow> cell \<Rightarrow> string option" where
  "json_value ns Undefined = None"
| "json_value ns (Str s) = Some (json_quote s)"
| "json_value ns (Num x) = Some (case x of Fin r \<Rightarrow> ns x | _ \<Rightarrow> ''null'')"

fun join :: "string \<Rightarrow> string list \<Rightarrow> string" where
  "join sep [] = []"
| "join sep [x] = x"
| "join sep (x # y # ys) = x @ sep @ join sep (y # ys)"

definition JSON_stringify :: "(number \<Rightarrow> string) \<Rightarrow> cell obj \<Rightarrow> string" where
  "JSON_stringify ns ob =
     ''{'' @ join '','' (List.map_filter
        (\<lambda>(k, v). map_option (\<lambda>j. json_quote k @ '':'' @ j) (json_value ns v)) ob) @ ''}''"

text \<open>Lodash: \<open>_.uniqBy\<close> keeps the first element of each key, in order.\<close>

fun uniqBy_from :: "'k list \<Rightarrow> ('a \<Rightarrow> 'k) \<Rightarrow> 'a list \<Rightarrow> 'a list" where
  "uniqBy_from seen f [] = []"
| "uniqBy_from seen f (x # xs) =
     (if f x \<in> set seen then uniqBy_from seen f xs else x # uniqBy_from (f x # seen) f xs)"

definition uniqBy :: "'a list \<Rightarrow> ('a \<Rightarrow> 'k) \<Rightarrow> 'a list" where
  "uniqBy xs f = uniqBy_from [] f xs"

text \<open>
  \<open>_.countBy\<close> with the identity: an object from the text of each value to the number
  of its occurrences. \<open>_.maxBy\<close> keeps the first element whose score is strictly
  greater than every earlier one, and is \<open>undefined\<close> on the empty array.
\<close>

definition countBy :: "string list \<Rightarrow> nat obj" where
  "countBy vals =
     fold (\<lambda>k ob. obj_set k (case map_of ob k of None \<Rightarrow> 1 | Some n \<Rightarrow> n + 1) ob) vals []"

fun maxBy_from :: "'a \<Rightarrow> ('a \<Rightarrow> nat) \<Rightarrow> 'a list \<Rightarrow> 'a" where
  "maxBy_from best f [] = best"
| "maxBy_from best f (x # xs) = maxBy_from (if f best < f x then x else best) f xs"

definition maxBy :: "'a list \<Rightarrow> ('a \<Rightarrow> nat) \<Rightarrow> 'a option" where
  "maxBy xs f = (case xs of [] \<Rightarrow> None | x # ys \<Rightarrow> Some (maxBy_from x f ys))"

subsection \<open>Issue detection\<close>

record Structure =
  columns :: nat
  rowCount :: nat
  ragged :: "bool option"
  emptyRows :: "nat option"

record Issues =
  missing :: "nat obj"
  duplicates :: nat
  whitespace :: "string obj"
  leadingZeros :: "string obj"
  outliers :: "nat obj"
  dataTypes :: "string obj"
  structure' :: Structure

definition missing_value :: "(number \<Rightarrow> string) \<Rightarrow> cell \<Rightarrow> bool" where
  \<comment> \<open>\<open>!v || v.toString().trim() === ''\<close>\<close>
  "missing_value ns v = (\<not> truthy v \<or> trim (toString ns v) = [])"

definition whitespace_value :: "(number \<Rightarrow> string) \<Rightarrow> cell \<Rightarrow> bool" where
  "whitespace_value ns v =
     (let value = toString ns v in value \<noteq> trim value \<or> nbsp \<in> set value)"

definition leadingZeros_value :: "(number \<Rightarrow> string) \<Rightarrow> cell \<Rightarrow> bool" where
  "leadingZeros_value ns v =
     (let value = toString ns v
      in all_digits value \<and> take 1 value = ''0'' \<and> length value > 1)"

definition String_of :: "(number \<Rightarrow> string) \<Rightarrow> cell \<Rightarrow> string" where
  \<comment> \<open>the conversion of an argument to a string, as \<open>parseFloat\<close> and property keys do\<close>
  "String_of ns v = (case v of Undefined \<Rightarrow> ''undefined'' | _ \<Rightarrow> toString ns v)"

definition numericValues ::
  "(string \<Rightarrow> number) \<Rightarrow> (number \<Rightarrow> string) \<Rightarrow> string \<Rightarrow> cell obj list \<Rightarrow> number list" where
  \<comment> \<open>\<open>objectData.map(row => parseFloat(row[header])).filter(val => !isNaN(val))\<close>\<close>
  "numericValues pf ns header objectData =
     filter (\<lambda>val. \<not> isNaN val) (map (\<lambda>row. pf (String_of ns (obj_get row header))) objectData)"

definition outlier_count :: "number list \<Rightarrow> nat" where
  \<comment> \<open>\<open>outliers.length\<close>; \<open>val > x\<close> is \<open>x < val\<close>, and a quartile that is
      \<open>undefined\<close> is \<open>NaN\<close> in the arithmetic\<close>
  "outlier_count vals =
     (let q1 = ToNumber (quantile vals (Fin (1 / 4)));
          q3 = ToNumber (quantile vals (Fin (3 / 4)));
          iqr = q3 - q1
      in length (filter (\<lambda>val. val < q1 - Fin 3 * iqr \<or> q3 + Fin 3 * iqr < val) vals))"

definition detect_missing :: "(number \<Rightarrow> string) \<Rightarrow> string list \<Rightarrow> cell obj list \<Rightarrow> nat obj" where
  "detect_missing ns headers objectData =
     fold (\<lambda>header m.
        let missingCount = length (filter (\<lambda>row. missing_value ns (obj_get row header)) objectData)
        in if missingCount > 0 then obj_set header missingCount m else m) headers []"

definition detect_whitespace :: "(number \<Rightarrow> string) \<Rightarrow> string list \<Rightarrow> cell obj list \<Rightarrow> string obj" where
  "detect_whitespace ns headers objectData =
     fold (\<lambda>header m.
        let hasWhitespace = list_ex (\<lambda>row. whitespace_value ns (obj_get row header)) objectData
        in if hasWhitespace then obj_set header ''leading_or_trailing_space'' m else m) headers []"

definition detect_leadingZeros :: "(number \<Rightarrow> string) \<Rightarrow> string list \<Rightarrow> cell obj list \<Rightarrow> string obj" where
  "detect_leadingZeros ns headers objectData =
     fold (\<lambda>header m.
        let hasLeadingZeros = list_ex (\<lambda>row. leadingZeros_value ns (obj_get row header)) objectData
        in if hasLeadingZeros then obj_set header ''leading_zeros_lost'' m else m) headers []"

definition detect_outliers ::
  "(string \<Rightarrow> number) \<Rightarrow> (number \<Rightarrow> string) \<Rightarrow> string list \<Rightarrow> cell obj list \<Rightarrow> nat obj" where
  "detect_outliers pf ns headers objectData =
     fold (\<lambda>header m.
        let vals = numericValues pf ns header objectData
        in if length vals > 10 \<and> outlier_count vals > 0
           then obj_set header (outlier_count vals) m else m) headers []"

definition detectIssues ::
  "(string \<Rightarrow> number) \<Rightarrow> (number \<Rightarrow> string) \<Rightarrow> cell list list \<Rightarrow> string list \<Rightarrow> Issues" where
  "detectIssues pf ns data headers =
     (let objectData = toObjectData headers data;
          uniqueRows = uniqBy objectData (JSON_stringify ns)
      in \<lparr> missing = detect_missing ns headers objectData,
           duplicates = length objectData - length uniqueRows,
           whitespace = detect_whitespace ns headers objectData,
           leadingZeros = detect_leadingZeros ns headers objectData,
           outliers = detect_outliers pf ns headers objectData,
           dataTypes = [],
           structure' = \<lparr> columns = length headers, rowCount = length data,
                         ragged = None, emptyRows = None \<rparr> \<rparr>)"

subsection \<open>Cleaning\<close>

text \<open>
  A log entry is a message and a severity. The messages of the source are template
  strings that start with an emoji, outside the code units of the model; a message is
  kept as its template with the interpolated values (\<open>None\<close> where the source would
  print \<open>undefined\<close>).
\<close>

datatype severity = Success | Info | Warning | Error

datatype log_message =
    Removed_duplicate_rows nat
  | Fixed_whitespace string
  | Restored_leading_zeros string
  | Filled_missing_values "nat option" string
  | Data_cleaning_complete

record CleaningLog =
  message :: log_message
  type' :: severity

type_synonym clean_state = "cell obj list \<times> CleaningLog list"

definition removeDuplicates :: "(number \<Rightarrow> string) \<Rightarrow> Issues \<Rightarrow> clean_state \<Rightarrow> clean_state" where
  "removeDuplicates ns issues st =
     (case st of (objectData, log') \<Rightarrow>
        if duplicates issues > 0 then
          let beforeCount = length objectData;
              objectData' = uniqBy objectData (JSON_stringify ns)
          in (objectData',
              log' @ [\<lparr> message = Removed_duplicate_rows (beforeCount - length objectData'),
                       type' = Success \<rparr>])
        else (objectData, log'))"

definition fixWhitespace :: "(number \<Rightarrow> string) \<Rightarrow> string \<Rightarrow> clean_state \<Rightarrow> clean_state" where
  "fixWhitespace ns column st =
     (case st of (objectData, log') \<Rightarrow>
        (map (\<lambda>row. obj_set column
                (Str (trim (replace_nbsp (toString ns (obj_get row column))))) row) objectData,
         log' @ [\<lparr> message = Fixed_whitespace column, type' = Success \<rparr>]))"

definition pad_value :: "(number \<Rightarrow> string) \<Rightarrow> nat \<Rightarrow> cell \<Rightarrow> string" where
  \<comment> \<open>\<open>v?.toString().padStart(maxLength, '0') || ''\<close>\<close>
  "pad_value ns maxLength v =
     (case v of Undefined \<Rightarrow> [] | _ \<Rightarrow> padStart maxLength (CHR ''0'') (toString ns v))"

definition restoreLeadingZeros :: "(number \<Rightarrow> string) \<Rightarrow> string \<Rightarrow> clean_state \<Rightarrow> clean_state" where
  \<comment> \<open>\<open>Math.max\<close> of no argument is \<open>-Infinity\<close>; it is then used on no row, and
      the model takes 0. This is the step when the engine accepts the spread call;
      \<open>restoreLeadingZeros_call\<close> below has the exception of a call with too many
      arguments.\<close>
  "restoreLeadingZeros ns column st =
     (case st of (objectData, log') \<Rightarrow>
        let maxLength = foldr max (map (\<lambda>row. length (toString ns (obj_get row column))) objectData) 0
        in (map (\<lambda>row. obj_set column (Str (pad_value ns maxLength (obj_get row column))) row)
              objectData,
            log' @ [\<lparr> message = Restored_leading_zeros column, type' = Success \<rparr>]))"

definition nonEmpty_value :: "(number \<Rightarrow> string) \<Rightarrow> cell \<Rightarrow> bool" where
  \<comment> \<open>\<open>val && val.toString().trim() !== ''\<close>\<close>
  "nonEmpty_value ns val = (truthy val \<and> trim (toString ns val) \<noteq> [])"

definition count_of :: "nat obj \<Rightarrow> string \<Rightarrow> nat" where
  \<comment> \<open>\<open>counts[key]\<close> as a score of \<open>_.maxBy\<close>, which never prefers an absent score\<close>
  "count_of counts key = (case map_of counts key of None \<Rightarrow> 0 | Some n \<Rightarrow> n)"

definition mode_value :: "(number \<Rightarrow> string) \<Rightarrow> cell list \<Rightarrow> string" where
  \<comment> \<open>\<open>_.maxBy(Object.keys(counts), key => counts[key]) || 'Unknown'\<close>\<close>
  "mode_value ns nonEmptyValues =
     (let counts = countBy (map (String_of ns) nonEmptyValues)
      in case maxBy (obj_keys counts) (count_of counts) of
           None \<Rightarrow> ''Unknown''
         | Some key \<Rightarrow> if key = [] then ''Unknown'' else key)"

definition fill_cell :: "(number \<Rightarrow> string) \<Rightarrow> cell \<Rightarrow> cell \<Rightarrow> cell" where
  \<comment> \<open>\<open>(v && v.toString().trim()) || fillValue\<close>\<close>
  "fill_cell ns fillValue v =
     (if truthy v \<and> trim (toString ns v) \<noteq> [] then Str (trim (toString ns v)) else fillValue)"

definition fillValue :: "(string \<Rightarrow> number) \<Rightarrow> (number \<Rightarrow> string) \<Rightarrow> cell list \<Rightarrow> cell" where
  "fillValue pf ns nonEmptyValues =
     (let numericValues =
            filter (\<lambda>val. \<not> isNaN val) (map (\<lambda>val. pf (String_of ns val)) nonEmptyValues)
      in if length numericValues = length nonEmptyValues
         then Num (median numericValues)
         else Str (mode_value ns nonEmptyValues))"

definition fillMissing ::
  "(string \<Rightarrow> number) \<Rightarrow> (number \<Rightarrow> string) \<Rightarrow> Issues \<Rightarrow> string \<Rightarrow> clean_state \<Rightarrow> clean_state" where
  "fillMissing pf ns issues column st =
     (case st of (objectData, log') \<Rightarrow>
        let nonEmptyValues =
              filter (nonEmpty_value ns) (map (\<lambda>row. obj_get row column) objectData)
        in if length nonEmptyValues > 0 then
             (map (\<lambda>row. obj_set column
                     (fill_cell ns (fillValue pf ns nonEmptyValues) (obj_get row column)) row)
                   objectData,
                 log' @ [\<lparr> message = Filled_missing_values (map_of (missing issues) column) column,
                          type' = Success \<rparr>])
           else (objectData, log'))"

text \<open>
  The four steps of \<open>cleanData\<close>, in the order of the source; each state is the
  pair of \<open>objectData\<close> and \<open>log\<close> after the step.
\<close>

definition afterDuplicates ::
  "(number \<Rightarrow> string) \<Rightarrow> Issues \<Rightarrow> string list \<Rightarrow> cell list list \<Rightarrow> clean_state" where
  "afterDuplicates ns issues headers csvData =
     removeDuplicates ns issues (toObjectData headers csvData, [])"

definition afterWhitespace ::
  "(number \<Rightarrow> string) \<Rightarrow> Issues \<Rightarrow> string list \<Rightarrow> cell list list \<Rightarrow> clean_state" where
  "afterWhitespace ns issues headers csvData =
     fold (fixWhitespace ns) (obj_keys (whitespace issues))
       (afterDuplicates ns issues headers csvData)"

definition afterLeadingZeros ::
  "(number \<Rightarrow> string) \<Rightarrow> Issues \<Rightarrow> string list \<Rightarrow> cell list list \<Rightarrow> clean_state" where
  "afterLeadingZeros ns issues headers csvData =
     fold (restoreLeadingZeros ns) (obj_keys (leadingZeros issues))
       (afterWhitespace ns issues headers csvData)"

definition afterMissing ::
  "(string \<Rightarrow> number) \<Rightarrow> (number \<Rightarrow> string) \<Rightarrow> Issues \<Rightarrow> string list \<Rightarrow> cell list list
     \<Rightarrow> clean_state" where
  "afterMissing pf ns issues headers csvData =
     fold (fillMissing pf ns issues) (obj_keys (missing issues))
       (afterLeadingZeros ns issues headers csvData)"

definition cleanData ::
  "(string \<Rightarrow> number) \<Rightarrow> (number \<Rightarrow> string) \<Rightarrow> cell list list \<Rightarrow> string list \<Rightarrow> Issues option
     \<Rightarrow> (cell list list \<times> CleaningLog list) option" where
  \<comment> \<open>reads the state \<open>csvData\<close>, \<open>headers\<close>, \<open>issues\<close>; \<open>None\<close> is the early return,
      otherwise the new \<open>cleanedData\<close> and \<open>cleaningLog\<close>. The array given to
      \<open>setCleaningLog\<close> is the one that receives the last entry. This is the outcome
      of a call in which no exception is thrown; \<open>cleanData_call\<close> below has the
      exception.\<close>
  "cleanData pf ns csvData headers issues' =
     (case issues' of
        None \<Rightarrow> None
      | Some issues \<Rightarrow>
          if length csvData = 0 then None
          else
            let st = afterMissing pf ns issues headers csvData;
                cleanedArrayData = map (\<lambda>row. map (\<lambda>header. obj_get row header) headers) (fst st)
            in Some (cleanedArrayData,
                     snd st @ [\<lparr> message = Data_cleaning_complete, type' = Success \<rparr>]))"

text \<open>
  \<open>cleanData\<close> above is the call that throws no exception. The one call in it that
  an engine can refuse is the spread call \<open>Math.max(...objectData.map(..))\<close> of the
  leading-zeros step: an engine accepts a bounded number of arguments in a call (the
  bound depends on the engine and on its stack) and throws a \<open>RangeError\<close> above
  it. \<open>cleanData_call\<close> is \<open>cleanData\<close> with this exception; \<open>argLimit\<close> is the
  bound of the engine, \<open>Inl\<close> holds the exception thrown and \<open>Inr\<close> the outcome of a
  call that returns.
\<close>

datatype exception = RangeError

definition restoreLeadingZeros_call ::
  "nat \<Rightarrow> (number \<Rightarrow> string) \<Rightarrow> string \<Rightarrow> clean_state \<Rightarrow> exception + clean_state" where
  "restoreLeadingZeros_call argLimit ns column st =
     (if argLimit < length (fst st) then Inl RangeError
      else Inr (restoreLeadingZeros ns column st))"

fun forEach_call :: "('a \<Rightarrow> 's \<Rightarrow> exception + 's) \<Rightarrow> 'a list \<Rightarrow> 's \<Rightarrow> exception + 's" where
  "forEach_call f [] st = Inr st"
| "forEach_call f (x # xs) st =
     (case f x st of Inl e \<Rightarrow> Inl e | Inr st' \<Rightarrow> forEach_call f xs st')"

definition cleanData_call ::
  "nat \<Rightarrow> (string \<Rightarrow> number) \<Rightarrow> (number \<Rightarrow> string) \<Rightarrow> cell list list \<Rightarrow> string list
     \<Rightarrow> Issues option \<Rightarrow> exception + (cell list list \<times> CleaningLog list) option" where
  "cleanData_call argLimit pf ns csvData headers issues' =
     (case issues' of
        None \<Rightarrow> Inr None
      | Some issues \<Rightarrow>
          if length csvData = 0 then Inr None
          else
            case forEach_call (restoreLeadingZeros_call argLimit ns)
                   (obj_keys (leadingZeros issues)) (afterWhitespace ns issues headers csvData) of
              Inl e \<Rightarrow> Inl e
            | Inr st2 \<Rightarrow>
                let st = fold (fillMissing pf ns issues) (obj_keys (missing issues)) st2;
                    cleanedArrayData =
                      map (\<lambda>row. map (\<lambda>header. obj_get row header) headers) (fst st)
                in Inr (Some (cleanedArrayData,
                              snd st @ [\<lparr> message = Data_cleaning_complete, type' = Success \<rparr>])))"

text \<open>
  The values of one column of \<open>objectData\<close>, and a row with its absent trailing cells
  written out as empty strings, for the statements below.
\<close>

definition with_empty_cells :: "string list \<Rightarrow> cell list \<Rightarrow> cell list" where
  "with_empty_cells headers row = row @ replicate (length headers - length row) (Str [])"

definition column_values :: "string \<Rightarrow> cell obj list \<Rightarrow> cell list" where
  "column_values column objectData = map (\<lambda>row. obj_get row column) objectData"

definition maxLength_of :: "(number \<Rightarrow> string) \<Rightarrow> string \<Rightarrow> cell obj list \<Rightarrow> nat" where
  "maxLength_of ns column objectData =
     foldr max (map (\<lambda>row. length (toString ns (obj_get row column))) objectData) 0"

text \<open>What \<open>fillMissing\<close> does to the values of its column.\<close>

definition fill_column :: "(string \<Rightarrow> number) \<Rightarrow> (number \<Rightarrow> string) \<Rightarrow> cell list \<Rightarrow> cell list" where
  "fill_column pf ns vals =
     (let nonEmptyValues = filter (nonEmpty_value ns) vals
      in if nonEmptyValues \<noteq> [] then map (fill_cell ns (fillValue pf ns nonEmptyValues)) vals
         else vals)"

subsection \<open>The table as arrays in a store\<close>

text \<open>
  \<open>csvData\<close> is an array of row arrays, and \<open>cleanData\<close> hands two new arrays to the
  component state. To state what the call does to arrays that other references share,
  the arrays live in a store: an address is an index, and allocation appends (the
  order of allocations cannot be observed). \<open>cleanData_store\<close> is \<open>cleanData\<close> with
  its arrays in the store: \<open>[...csvData]\<close> allocates a copy of the outer array that
  holds the same row references, \<open>log\<close> is an array that \<open>push\<close> updates in place,
  the last \<open>map\<close> allocates one array per row and the outer array. The row objects
  never leave the call and stay values; \<open>headers\<close> and \<open>issues\<close> are only read.
  The result is the pair of references given to \<open>setCleanedData\<close> and
  \<open>setCleaningLog\<close>.
\<close>

type_synonym addr = nat

datatype harray = Rows "addr list" | Cells "cell list" | Entries "CleaningLog list"

type_synonym store = "harray list"

definition alloc :: "store \<Rightarrow> harray \<Rightarrow> store \<times> addr" where
  "alloc s v = (s @ [v], length s)"

fun alloc_all :: "store \<Rightarrow> harray list \<Rightarrow> store \<times> addr list" where
  "alloc_all s [] = (s, [])"
| "alloc_all s (v # vs) =
     (case alloc s v of (s1, a) \<Rightarrow>
        case alloc_all s1 vs of (s2, as) \<Rightarrow> (s2, a # as))"

definition rows_at :: "store \<Rightarrow> addr \<Rightarrow> addr list" where
  "rows_at s a = (if a < length s then (case s ! a of Rows rs \<Rightarrow> rs | _ \<Rightarrow> []) else [])"

definition cells_at :: "store \<Rightarrow> addr \<Rightarrow> cell list" where
  "cells_at s a = (if a < length s then (case s ! a of Cells cs \<Rightarrow> cs | _ \<Rightarrow> []) else [])"

definition entries_at :: "store \<Rightarrow> addr \<Rightarrow> CleaningLog list" where
  "entries_at s a = (if a < length s then (case s ! a of Entries es \<Rightarrow> es | _ \<Rightarrow> []) else [])"

definition table_at :: "store \<Rightarrow> addr \<Rightarrow> cell list list" where
  "table_at s a = map (cells_at s) (rows_at s a)"

definition push :: "store \<Rightarrow> addr \<Rightarrow> CleaningLog \<Rightarrow> store" where
  "push s a e =
     (if a < length s then (case s ! a of Entries es \<Rightarrow> s[a := Entries (es @ [e])] | _ \<Rightarrow> s)
      else s)"

definition cleanData_store ::
  "(string \<Rightarrow> number) \<Rightarrow> (number \<Rightarrow> string) \<Rightarrow> store \<Rightarrow> addr \<Rightarrow> string list \<Rightarrow> Issues option
     \<Rightarrow> store \<times> (addr \<times> addr) option" where
  "cleanData_store pf ns s csvData headers issues' =
     (case issues' of
        None \<Rightarrow> (s, None)
      | Some issues \<Rightarrow>
          if length (rows_at s csvData) = 0 then (s, None)
          else
            case alloc s (Rows (rows_at s csvData)) of (s1, cleaned) \<Rightarrow>
            case alloc s1 (Entries []) of (s2, log') \<Rightarrow>
              let st = afterMissing pf ns issues headers (table_at s2 cleaned);
                  s3 = fold (\<lambda>e s. push s log' e) (snd st) s2
              in case alloc_all s3
                     (map (\<lambda>row. Cells (map (\<lambda>header. obj_get row header) headers)) (fst st)) of
                   (s4, rows) \<Rightarrow>
                     case alloc s4 (Rows rows) of (s5, cleanedArrayData) \<Rightarrow>
                       (push s5 log' \<lparr> message = Data_cleaning_complete, type' = Success \<rparr>,
                        Some (cleanedArrayData, log')))"

subsection \<open>Reference instances of the built-ins\<close>

text \<open>
  The examples need a parser and a printer. \<open>parseFloat\<close> reads, after leading white
  space, the longest prefix that is a decimal literal or a signed \<open>Infinity\<close>, and
  gives the double nearest to its value, or \<open>NaN\<close> when there is no such prefix.
  \<open>Number_toString\<close> prints an integer in decimal, as JavaScript does below
  \<open>10 ^ 21\<close>; the examples print no other number (for one, it prints the decimal
  expansion cut after 20 fractional digits, which is not JavaScript's shortest form).
\<close>

definition exponent_part :: "string \<Rightarrow> int" where
  "exponent_part r =
     (case r of
        [] \<Rightarrow> 0
      | c # r1 \<Rightarrow>
          if c = CHR ''e'' \<or> c = CHR ''E'' then
            (case r1 of
               [] \<Rightarrow> 0
             | d # r2 \<Rightarrow>
                 if d = CHR ''-'' \<and> takeWhile digit_char r2 \<noteq> []
                   then - int (dec_value (takeWhile digit_char r2))
                 else if d = CHR ''+'' \<and> takeWhile digit_char r2 \<noteq> []
                   then int (dec_value (takeWhile digit_char r2))
                 else int (dec_value (takeWhile digit_char r1)))
          else 0)"

definition parseFloat :: "string \<Rightarrow> number" where
  "parseFloat s =
     (let t = dropWhile js_space s;
          neg = (take 1 t = ''-'');
          u = (if take 1 t = ''-'' \<or> take 1 t = ''+'' then drop 1 t else t);
          ip = takeWhile digit_char u;
          r1 = dropWhile digit_char u;
          fp = (if take 1 r1 = ''.'' then takeWhile digit_char (drop 1 r1) else []);
          r2 = (if take 1 r1 = ''.'' then dropWhile digit_char (drop 1 r1) else r1)
      in if take 8 u = ''Infinity'' then (if neg then NegInf else PosInf)
         else if ip = [] \<and> fp = [] then NaN
         else
           let m = of_nat (dec_value ip) + of_nat (dec_value fp) / 10 ^ length fp;
               e = exponent_part r2;
               v = (if e < 0 then m / 10 ^ nat (- e) else m * 10 ^ nat e)
           in double_of (if neg then - v else v))"

function show_nat :: "nat \<Rightarrow> string" where
  "show_nat n =
     (if n < 10 then [char_of (48 + n)] else show_nat (n div 10) @ [char_of (48 + n mod 10)])"
  by pat_completeness auto
termination
  by (relation "measure id") auto

declare show_nat.simps [simp del]

fun frac_digits :: "nat \<Rightarrow> rat \<Rightarrow> string" where
  "frac_digits 0 r = []"
| "frac_digits (Suc n) r =
     (if r = 0 then []
      else char_of (48 + nat \<lfloor>r * 10\<rfloor>) # frac_digits n (r * 10 - of_int \<lfloor>r * 10\<rfloor>))"

fun Number_toString :: "number \<Rightarrow> string" where
  "Number_toString NaN = ''NaN''"
| "Number_toString PosInf = ''Infinity''"
| "Number_toString NegInf = ''-Infinity''"
| "Number_toString (Fin x) =
     (let a = \<bar>x\<bar>; f = a - of_int \<lfloor>a\<rfloor>
      in (if x < 0 then ''-'' else []) @ show_nat (nat \<lfloor>a\<rfloor>)
         @ (if f = 0 then [] else ''.'' @ frac_digits 20 f))"

subsection \<open>Example tables\<close>

definition outlier_table :: "cell list list" where
  "outlier_table =
     [[Str ''1''], [Str ''2''], [Str ''3''], [Str ''4''], [Str ''5''], [Str ''6''],
      [Str ''7''], [Str ''8''], [Str ''9''], [Str ''10''], [Str ''11''], [Str ''99'']]"

definition huge :: rat where
  \<comment> \<open>a double near the largest one\<close>
  "huge = 2 ^ 1023"

definition ragged_table :: "cell list list" where
  \<comment> \<open>200000 rows of one cell, \<open>00\<close>, \<open>01\<close>, \<open>02\<close> and so on, under two headers\<close>
  "ragged_table = map (\<lambda>n. [Str (CHR ''0'' # show_nat n)]) [0..<200000]"

definition dup_table :: "cell list list" where
  "dup_table = [[Str ''a''], [Str ''a''], [Str '' a'']]"

definition empty_table :: "cell list list" where
  "empty_table = [[Str ''x'', Str '''']]"

definition clean_table :: "cell list list" where
  "clean_table = [[Str ''x'']]"

definition scenario_table :: "cell list list" where
  "scenario_table =
     [[Str ''1'', Str ''10''], [Str ''2'', Str ''''], [Str ''1'', Str ''10''],
      [Str '' 3 '', Str ''30'']]"


definition zeros_table :: "cell list list" where
  "zeros_table = [[Str ''007''], [Str '' abcd '']]"

definition zip_table :: "cell list list" where
  "zip_table = [[Str ''007''], [Str ''012''], [Str ''5'']]"

definition untrimmed_table :: "cell list list" where
  "untrimmed_table = [[Str '' 5''], [Str '''']]"

definition missing_only :: Issues where
  "missing_only =
     \<lparr> missing = [(''c'', 1)], duplicates = 0, whitespace = [], leadingZeros = [],
       outliers = [], dataTypes = [],
       structure' = \<lparr> columns = 1, rowCount = 2, ragged = None, emptyRows = None \<rparr> \<rparr>"

definition pair_table :: "cell list list" where
  "pair_table = [[Str ''a''], [Str ''a'']]"

definition shared_store :: store where
  "shared_store = [Rows [1], Cells [Str '' x'']]"

definition space_report :: Issues where
  "space_report =
     \<lparr> missing = [], duplicates = 0, whitespace = [(''a'', ''leading_or_trailing_space'')],
       leadingZeros = [], outliers = [], dataTypes = [],
       structure' = \<lparr> columns = 1, rowCount = 1, ragged = None, emptyRows = None \<rparr> \<rparr>"

section \<open>Properties\<close>

subsection \<open>Numbers\<close>

lemma round_half_even_of_int: "round_half_even (of_int z) = z"
  by (simp add: round_half_even_def)

lemma round_half_even_le:
  assumes "x \<le> of_int M"
  shows "round_half_even x \<le> M"
proof (cases "x = of_int M")
  case True
  then show ?thesis by (simp add: round_half_even_of_int)
next
  case False
  with assms have "x < of_int M" by simp
  then have "\<lfloor>x\<rfloor> < M" by (simp add: floor_less_iff)
  then show ?thesis by (simp add: round_half_even_def Let_def)
qed

lemma round_half_even_nonneg:
  assumes "0 \<le> x"
  shows "0 \<le> round_half_even x"
proof -
  have "0 \<le> \<lfloor>x\<rfloor>" using assms by simp
  then show ?thesis by (simp add: round_half_even_def Let_def)
qed

lemma binade_le:
  assumes pos: "0 < a"
  shows "2 powi binade a \<le> a"
proof -
  obtain p q where pq: "quotient_of a = (p, q)" by (cases "quotient_of a")
  have q0: "0 < q" using pq by (rule quotient_of_denom_pos)
  have a: "a = of_int p / of_int q" using pq by (rule quotient_of_div)
  have p0: "0 < p"
  proof (rule ccontr)
    assume "\<not> 0 < p"
    then have "(of_int p :: rat) \<le> 0" by simp
    then have "a \<le> 0" unfolding a using q0 by (simp add: divide_nonpos_pos)
    with pos show False by simp
  qed
  define d where "d = bitlen p - bitlen q"
  show ?thesis
  proof (cases "2 powi d \<le> a")
    case True
    then show ?thesis by (simp add: binade_def pq d_def Let_def)
  next
    case False
    then have b: "binade a = d - 1" by (simp add: binade_def pq d_def Let_def)
    have bp: "1 \<le> bitlen p" using p0 by (simp add: bitlen_alt_def)
    have bq: "1 \<le> bitlen q" using q0 by (simp add: bitlen_alt_def)
    have lo: "(2::int) ^ nat (bitlen p - 1) \<le> p" using bitlen_bounds [OF p0] by simp
    have hi: "q < (2::int) ^ nat (bitlen q)" using bitlen_bounds [OF q0] by simp
    have lo': "(2::rat) ^ nat (bitlen p - 1) \<le> of_int p"
    proof -
      have "(of_int ((2::int) ^ nat (bitlen p - 1)) :: rat) \<le> of_int p"
        using lo by (simp only: of_int_le_iff)
      then show ?thesis by simp
    qed
    have hi': "(of_int q :: rat) \<le> 2 ^ nat (bitlen q)"
    proof -
      have "(of_int q :: rat) \<le> of_int ((2::int) ^ nat (bitlen q))"
        using hi by (simp only: of_int_le_iff)
      then show ?thesis by simp
    qed
    have "(2::rat) powi (d - 1) = 2 powi (bitlen p - 1) / 2 powi bitlen q"
      by (simp add: d_def power_int_diff)
    also have "\<dots> = 2 ^ nat (bitlen p - 1) / 2 ^ nat (bitlen q)"
      using bp bq by (simp add: power_int_def)
    also have "\<dots> \<le> of_int p / of_int q"
      using lo' hi' q0 p0 by (intro frac_le) simp_all
    finally have "(2::rat) powi (d - 1) \<le> a" by (simp only: a [symmetric])
    then show ?thesis by (simp only: b)
  qed
qed

lemma binade_less_53:
  assumes pos: "0 < a" and le: "a < 2 ^ 53"
  shows "binade a < 53"
proof (rule ccontr)
  assume "\<not> binade a < 53"
  then have "53 \<le> binade a" by simp
  then have "(2::rat) powi 53 \<le> 2 powi binade a"
    by (intro power_int_increasing) simp_all
  also have "\<dots> \<le> a" using pos by (rule binade_le)
  finally show False using le by simp
qed

lemma double_of_range:
  assumes x0: "0 \<le> x" and xN: "x \<le> of_nat N" and N: "N < 2 ^ 53"
  shows "\<exists>y. double_of x = Fin y \<and> 0 \<le> y \<and> y \<le> of_nat N"
proof (cases "x = 0")
  case True
  then show ?thesis by (simp add: double_of_def)
next
  case False
  with x0 have pos: "0 < x" by simp
  have "of_nat N < (of_nat (2 ^ 53) :: rat)" using N by (simp only: of_nat_less_iff)
  then have N': "(of_nat N :: rat) < 2 ^ 53" by simp
  with xN have "x < 2 ^ 53" by simp
  with pos have e: "binade x < 53" by (rule binade_less_53)
  define k where "k = max (binade x) (- 1022) - 52"
  define j where "j = nat (- k)"
  have k0: "k \<le> 0" using e by (simp add: k_def)
  then have kj: "k = - int j" by (simp add: j_def)
  have pw: "(2::rat) powi k = 1 / 2 ^ j" by (simp add: kj power_int_minus inverse_eq_divide)
  define m where "m = round_half_even (x / 2 powi k)"
  have xs: "x / 2 powi k = x * 2 ^ j" by (simp add: pw)
  have "x * 2 ^ j \<le> of_nat N * 2 ^ j" using xN by simp
  also have "\<dots> = of_int (int N * 2 ^ j)" by simp
  finally have "m \<le> int N * 2 ^ j" unfolding m_def xs by (rule round_half_even_le)
  then have "(of_int m :: rat) \<le> of_int (int N * 2 ^ j)" by (simp only: of_int_le_iff)
  then have "(of_int m :: rat) \<le> of_nat N * 2 ^ j" by simp
  then have yN: "of_int m * 2 powi k \<le> (of_nat N :: rat)"
    by (simp add: pw pos_divide_le_eq)
  have "0 \<le> x * 2 ^ j" using x0 by simp
  then have "0 \<le> m" unfolding m_def xs by (rule round_half_even_nonneg)
  then have y0: "(0::rat) \<le> of_int m * 2 powi k" by (simp add: pw)
  have no: "\<not> (2::rat) ^ 1024 \<le> of_int m * 2 powi k"
  proof -
    have "of_int m * 2 powi k < (2::rat) ^ 53" using yN N' by simp
    also have "\<dots> \<le> 2 ^ 1024" by (intro power_increasing) simp_all
    finally show ?thesis by simp
  qed
  have "double_of x = Fin (of_int m * 2 powi k)"
    using pos no by (simp add: double_of_def Let_def k_def [symmetric] m_def [symmetric])
  with y0 yN show ?thesis by blast
qed

lemma double_of_nat:
  assumes N: "N < 2 ^ 53"
  shows "double_of (of_nat N) = Fin (of_nat N)"
proof (cases "N = 0")
  case True
  then show ?thesis by (simp add: double_of_def)
next
  case False
  define x :: rat where "x = of_nat N"
  have pos: "0 < x" using False by (simp add: x_def)
  have "of_nat N < (of_nat (2 ^ 53) :: rat)" using N by (simp only: of_nat_less_iff)
  then have N': "x < 2 ^ 53" by (simp add: x_def)
  with pos have e: "binade x < 53" by (rule binade_less_53)
  define k where "k = max (binade x) (- 1022) - 52"
  define j where "j = nat (- k)"
  have k0: "k \<le> 0" using e by (simp add: k_def)
  then have kj: "k = - int j" by (simp add: j_def)
  have pw: "(2::rat) powi k = 1 / 2 ^ j" by (simp add: kj power_int_minus inverse_eq_divide)
  have xs: "x / 2 powi k = of_int (int N * 2 ^ j)" by (simp add: pw x_def)
  have m: "round_half_even (x / 2 powi k) = int N * 2 ^ j"
    unfolding xs by (rule round_half_even_of_int)
  have y: "of_int (round_half_even (x / 2 powi k)) * 2 powi k = x"
    unfolding m by (simp add: pw x_def)
  have no: "\<not> (2::rat) ^ 1024 \<le> x"
  proof -
    have "x < (2::rat) ^ 53" by (rule N')
    also have "\<dots> \<le> 2 ^ 1024" by (intro power_increasing) simp_all
    finally show ?thesis by simp
  qed
  have "double_of x = Fin x"
    using pos no y by (simp add: double_of_def Let_def k_def [symmetric])
  then show ?thesis by (simp add: x_def)
qed


lemma double_of_dyadic:
  assumes j: "j \<le> 1074" and small: "\<bar>x * 2 ^ j\<bar> < 2 ^ 53" and int: "x * 2 ^ j = of_int i"
  shows "double_of x = Fin x"
proof (cases "x = 0")
  case True
  then show ?thesis by (simp add: double_of_def)
next
  case False
  define a where "a = \<bar>x\<bar>"
  have pos: "0 < a" using False by (simp add: a_def)
  have am: "a * 2 ^ j = of_int \<bar>i\<bar>"
  proof -
    have "a * 2 ^ j = \<bar>x * 2 ^ j\<bar>" by (simp add: a_def abs_mult)
    then show ?thesis by (simp add: int)
  qed
  have a53: "a * 2 ^ j < 2 ^ 53" using small by (simp add: a_def abs_mult)
  have "a \<le> a * 2 ^ j" using pos by (simp add: mult_le_cancel_left1)
  with a53 have alt: "a < 2 ^ 53" by simp
  define e where "e = binade a"
  have e_le: "e \<le> 52 - int j"
  proof (rule ccontr)
    assume "\<not> e \<le> 52 - int j"
    then have "53 - int j \<le> e" by simp
    then have "(2::rat) powi (53 - int j) \<le> 2 powi e"
      by (intro power_int_increasing) simp_all
    also have "\<dots> \<le> a" unfolding e_def using pos by (rule binade_le)
    finally have "(2::rat) powi (53 - int j) * 2 ^ j \<le> a * 2 ^ j" by simp
    moreover have "(2::rat) powi (53 - int j) * 2 ^ j = 2 ^ 53"
    proof -
      have "(2::rat) powi (53 - int j) * 2 powi (int j) = 2 powi (53 - int j + int j)"
        by (subst power_int_add) simp_all
      then show ?thesis by simp
    qed
    ultimately show False using a53 by simp
  qed
  define k where "k = max e (- 1022) - 52"
  have kj: "k \<le> - int j" using e_le j by (simp add: k_def)
  define d where "d = nat (- k - int j)"
  have kd: "- k = int j + int d" using kj by (simp add: d_def)
  have pw: "(2::rat) powi k = 1 / (2 ^ j * 2 ^ d)"
  proof -
    have "(2::rat) powi k = inverse (2 powi (- k))" by (simp add: power_int_minus)
    also have "(2::rat) powi (- k) = 2 ^ j * 2 ^ d"
      unfolding kd by (subst power_int_add) simp_all
    finally show ?thesis by (simp add: inverse_eq_divide)
  qed
  have q: "a / 2 powi k = of_int (\<bar>i\<bar> * 2 ^ d)"
  proof -
    have "a / 2 powi k = (a * 2 ^ j) * 2 ^ d" by (simp add: pw)
    then show ?thesis by (simp add: am)
  qed
  have y: "of_int (round_half_even (a / 2 powi k)) * 2 powi k = a"
  proof -
    have "of_int (round_half_even (a / 2 powi k)) * 2 powi k = (a / 2 powi k) * 2 powi k"
      by (simp only: q round_half_even_of_int)
    then show ?thesis by simp
  qed
  have no: "\<not> (2::rat) ^ 1024 \<le> a"
  proof -
    have "a < (2::rat) ^ 53" by (rule alt)
    also have "\<dots> \<le> 2 ^ 1024" by (intro power_increasing) simp_all
    finally show ?thesis by simp
  qed
  have "double_of x = Fin (if x < 0 then - a else a)"
    using False no y
    by (simp add: double_of_def Let_def a_def [symmetric] e_def [symmetric] k_def [symmetric])
  then show ?thesis by (simp add: a_def)
qed

lemma double_of_short [code]:
  "double_of x =
     (if \<bar>x * 1024\<bar> < 9007199254740992 \<and> x * 1024 = of_int \<lfloor>x * 1024\<rfloor> then Fin x
      else if x = 0 then Fin 0
      else
        let a = \<bar>x\<bar>;
            k = max (binade a) (- 1022) - 52;
            y = of_int (round_half_even (a / 2 powi k)) * 2 powi k
        in if 2 ^ 1024 \<le> y then (if x < 0 then NegInf else PosInf)
           else Fin (if x < 0 then - y else y))"
proof (cases "\<bar>x * 1024\<bar> < 9007199254740992 \<and> x * 1024 = of_int \<lfloor>x * 1024\<rfloor>")
  case True
  have "double_of x = Fin x"
  proof (rule double_of_dyadic [where j = 10 and i = "\<lfloor>x * 1024\<rfloor>"])
    show "(10::nat) \<le> 1074" by simp
    show "\<bar>x * 2 ^ 10\<bar> < 2 ^ 53" using True by simp
    show "x * 2 ^ 10 = of_int \<lfloor>x * 1024\<rfloor>" using True by simp
  qed
  with True show ?thesis by simp
next
  case False
  show ?thesis unfolding double_of_def by (simp only: False if_False)
qed

lemma binade_gt:
  assumes pos: "0 < a"
  shows "a < 2 powi (binade a + 1)"
proof -
  obtain p q where pq: "quotient_of a = (p, q)" by (cases "quotient_of a")
  have q0: "0 < q" using pq by (rule quotient_of_denom_pos)
  have a: "a = of_int p / of_int q" using pq by (rule quotient_of_div)
  have p0: "0 < p"
  proof (rule ccontr)
    assume "\<not> 0 < p"
    then have "(of_int p :: rat) \<le> 0" by simp
    then have "a \<le> 0" unfolding a using q0 by (simp add: divide_nonpos_pos)
    with pos show False by simp
  qed
  define d where "d = bitlen p - bitlen q"
  show ?thesis
  proof (cases "2 powi d \<le> a")
    case True
    then have b: "binade a = d" by (simp add: binade_def pq d_def Let_def)
    have bp: "1 \<le> bitlen p" using p0 by (simp add: bitlen_alt_def)
    have bq: "1 \<le> bitlen q" using q0 by (simp add: bitlen_alt_def)
    have hi: "p < (2::int) ^ nat (bitlen p)" using bitlen_bounds [OF p0] by simp
    have lo: "(2::int) ^ nat (bitlen q - 1) \<le> q" using bitlen_bounds [OF q0] by simp
    have hi': "(of_int p :: rat) < 2 ^ nat (bitlen p)"
    proof -
      have "(of_int p :: rat) < of_int ((2::int) ^ nat (bitlen p))"
        using hi by (simp only: of_int_less_iff)
      then show ?thesis by simp
    qed
    have lo': "(2::rat) ^ nat (bitlen q - 1) \<le> of_int q"
    proof -
      have "(of_int ((2::int) ^ nat (bitlen q - 1)) :: rat) \<le> of_int q"
        using lo by (simp only: of_int_le_iff)
      then show ?thesis by simp
    qed
    have "of_int p / of_int q < (2::rat) ^ nat (bitlen p) / 2 ^ nat (bitlen q - 1)"
      using hi' lo' q0 p0 by (intro frac_less) simp_all
    also have "\<dots> = 2 powi bitlen p / 2 powi (bitlen q - 1)"
      using bp bq by (simp add: power_int_def)
    also have "\<dots> = 2 powi (bitlen p - (bitlen q - 1))"
      by (rule power_int_diff [symmetric]) simp
    also have "bitlen p - (bitlen q - 1) = d + 1" by (simp add: d_def)
    finally have "a < 2 powi (d + 1)" by (simp only: a [symmetric])
    then show ?thesis by (simp only: b)
  next
    case False
    then have "binade a = d - 1" by (simp add: binade_def pq d_def Let_def)
    with False show ?thesis by simp
  qed
qed

lemma binade_eqI:
  assumes lo: "2 powi e \<le> a" and hi: "a < 2 powi (e + 1)"
  shows "binade a = e"
proof -
  have pos: "0 < a"
  proof -
    have "(0::rat) < 2 powi e" by simp
    from this lo show ?thesis by (rule less_le_trans)
  qed
  have "\<not> binade a < e"
  proof
    assume "binade a < e"
    then have "binade a + 1 \<le> e" by simp
    then have "(2::rat) powi (binade a + 1) \<le> 2 powi e"
      by (intro power_int_increasing) simp_all
    with binade_gt [OF pos] lo show False by simp
  qed
  moreover have "\<not> e < binade a"
  proof
    assume "e < binade a"
    then have "e + 1 \<le> binade a" by simp
    then have "(2::rat) powi (e + 1) \<le> 2 powi binade a"
      by (intro power_int_increasing) simp_all
    with binade_le [OF pos] hi show False by simp
  qed
  ultimately show ?thesis by simp
qed

lemma round_half_even_ge:
  assumes "of_int M \<le> x"
  shows "M \<le> round_half_even x"
proof -
  have "M \<le> \<lfloor>x\<rfloor>" using assms by (simp add: le_floor_iff)
  then show ?thesis by (simp add: round_half_even_def Let_def)
qed

lemma round_half_even_cases:
  assumes "of_int f \<le> x" and "x < of_int f + 1"
  shows "round_half_even x =
     (if x - of_int f < 1 / 2 then f else if 1 / 2 < x - of_int f then f + 1
      else if even f then f else f + 1)"
proof -
  have "\<lfloor>x\<rfloor> = f" using assms by (simp add: floor_eq_iff)
  then show ?thesis by (simp add: round_half_even_def Let_def)
qed

text \<open>
  A rounding is certified by its exponent: for \<open>x\<close> in the binade of \<open>2 ^ e\<close>, in
  the normal range, the double is the multiple of \<open>2 ^ (e - 52)\<close> that
  \<open>round_half_even\<close> picks.
\<close>

lemma double_of_binade:
  assumes lo: "2 powi e \<le> x" and hi: "x < 2 powi (e + 1)"
    and e: "- 1022 \<le> e" "e \<le> 1022"
    and r: "round_half_even (x / 2 powi (e - 52)) = m"
  shows "double_of x = Fin (of_int m * 2 powi (e - 52))"
proof -
  have pos: "0 < x"
  proof -
    have "(0::rat) < 2 powi e" by simp
    from this lo show ?thesis by (rule less_le_trans)
  qed
  have b: "binade x = e" using lo hi by (rule binade_eqI)
  have k: "max (binade x) (- 1022) - 52 = e - 52" using e by (simp add: b)
  have "x / 2 powi (e - 52) < 2 powi (e + 1) / 2 powi (e - 52)"
    using hi by (simp add: divide_strict_right_mono)
  also have "\<dots> = 2 powi 53"
  proof -
    have "(2::rat) powi (e + 1) / 2 powi (e - 52) = 2 powi (e + 1 - (e - 52))"
      by (rule power_int_diff [symmetric]) simp
    then show ?thesis by simp
  qed
  finally have "x / 2 powi (e - 52) \<le> of_int (2 ^ 53)" by simp
  then have "round_half_even (x / 2 powi (e - 52)) \<le> 2 ^ 53" by (rule round_half_even_le)
  then have "(of_int m :: rat) \<le> of_int (2 ^ 53)" unfolding r by (simp only: of_int_le_iff)
  then have "of_int m * 2 powi (e - 52) \<le> (2::rat) ^ 53 * 2 powi (e - 52)"
    by (simp add: mult_right_mono)
  also have "\<dots> = 2 powi (53 + (e - 52))"
    by (subst power_int_add) simp_all
  also have "\<dots> \<le> 2 powi 1023"
    using e by (intro power_int_increasing) simp_all
  also have "\<dots> < (2::rat) ^ 1024" by simp
  finally have no: "\<not> (2::rat) ^ 1024 \<le> of_int m * 2 powi (e - 52)" by simp
  have ab: "\<bar>x\<bar> = x" using pos by simp
  have x0: "x \<noteq> 0" "\<not> x < 0" using pos by simp_all
  show ?thesis
    unfolding double_of_def Let_def ab k r using x0 no by (simp only: if_False)
qed

lemma double_of_overflow:
  assumes "2 ^ 1024 \<le> x"
  shows "double_of x = PosInf"
proof -
  have big: "(2::rat) powi 1024 \<le> x" using assms by simp
  have pos: "0 < x"
  proof -
    have "(0::rat) < 2 ^ 1024" by simp
    from this assms show ?thesis by (rule less_le_trans)
  qed
  define e where "e = binade x"
  have e: "1024 \<le> e"
  proof (rule ccontr)
    assume "\<not> 1024 \<le> e"
    then have "e + 1 \<le> 1024" by simp
    then have "(2::rat) powi (e + 1) \<le> 2 powi 1024"
      by (intro power_int_increasing) simp_all
    with binade_gt [OF pos] big show False by (simp add: e_def)
  qed
  define k where "k = e - 52"
  have kk: "max (binade x) (- 1022) - 52 = k" using e by (simp add: k_def e_def)
  have "(2::rat) powi e / 2 powi k \<le> x / 2 powi k"
    using binade_le [OF pos] by (simp add: e_def divide_right_mono)
  moreover have "(2::rat) powi e / 2 powi k = of_int (2 ^ 52)"
  proof -
    have "(2::rat) powi e / 2 powi k = 2 powi (e - k)"
      by (rule power_int_diff [symmetric]) simp
    then show ?thesis by (simp add: k_def)
  qed
  ultimately have "of_int (2 ^ 52) \<le> x / 2 powi k" by simp
  then have "2 ^ 52 \<le> round_half_even (x / 2 powi k)" by (rule round_half_even_ge)
  then have "(of_int (2 ^ 52) :: rat) \<le> of_int (round_half_even (x / 2 powi k))"
    by (simp only: of_int_le_iff)
  then have A: "(2::rat) ^ 52 * 2 powi k \<le> of_int (round_half_even (x / 2 powi k)) * 2 powi k"
    by (simp add: mult_right_mono)
  have B: "(2::rat) ^ 52 * 2 powi k = 2 powi e"
  proof -
    have "(2::rat) powi 52 * 2 powi k = 2 powi (52 + k)" by (subst power_int_add) simp_all
    then show ?thesis by (simp add: k_def)
  qed
  have "(2::rat) powi 1024 \<le> 2 powi e"
    using e by (intro power_int_increasing) simp_all
  then have "(2::rat) ^ 1024 \<le> 2 powi e" by simp
  also have "\<dots> = (2::rat) ^ 52 * 2 powi k" by (rule B [symmetric])
  also have "\<dots> \<le> of_int (round_half_even (x / 2 powi k)) * 2 powi k" by (rule A)
  finally have "(2::rat) ^ 1024 \<le> of_int (round_half_even (x / 2 powi k)) * 2 powi k" .
  moreover have ab: "\<bar>x\<bar> = x" using pos by simp
  moreover have "x \<noteq> 0" "\<not> x < 0" using pos by simp_all
  ultimately show ?thesis
    unfolding double_of_def Let_def ab kk by (simp only: if_False if_True)
qed

subsection \<open>Stats helpers\<close>

lemma double_of_zero [simp]: "double_of 0 = Fin 0"
  by (simp add: double_of_def)

lemma double_of_one [simp]: "double_of 1 = Fin 1"
  using double_of_nat [of 1] by simp

lemma less_number_asym: "x < y \<Longrightarrow> \<not> y < x" for x y :: number
  by (cases x; cases y) simp_all

lemma less_number_trans: "x < y \<Longrightarrow> y < z \<Longrightarrow> x < z" for x y z :: number
  by (cases x; cases y; cases z) simp_all

lemma length_insert_number [simp]: "length (insert_number x ys) = Suc (length ys)"
  by (induction ys) simp_all

lemma length_sort_numbers [simp]: "length (sort_numbers xs) = length xs"
  by (induction xs) (simp_all add: sort_numbers_def)

lemma set_insert_number [simp]: "set (insert_number x ys) = insert x (set ys)"
  by (induction ys) auto

lemma count_insert_number: "count_list (insert_number x ys) z = count_list (x # ys) z"
  by (induction ys) auto

lemma count_sort_numbers: "count_list (sort_numbers xs) z = count_list xs z"
  by (induction xs) (simp_all add: sort_numbers_def count_insert_number)

lemma sort_numbers_Nil [simp]: "sort_numbers [] = []"
  by (simp add: sort_numbers_def)

lemma sort_numbers_single [simp]: "sort_numbers [x] = [x]"
  by (simp add: sort_numbers_def)

lemma sorted_insert_number:
  "sorted_wrt (\<lambda>a b. \<not> b < a) ys \<Longrightarrow> sorted_wrt (\<lambda>a b. \<not> b < a) (insert_number x ys)"
proof (induction ys)
  case Nil
  then show ?case by simp
next
  case (Cons y ys)
  show ?case
  proof (cases "x < y")
    case True
    have "\<not> z < x" if "z \<in> set ys" for z
    proof
      assume "z < x"
      from this True have "z < y" by (rule less_number_trans)
      with Cons.prems that show False by simp
    qed
    with True Cons.prems show ?thesis by (auto dest: less_number_asym)
  next
    case False
    with Cons show ?thesis by auto
  qed
qed

lemma sorted_sort_numbers: "sorted_wrt (\<lambda>a b. \<not> b < a) (sort_numbers xs)"
  by (induction xs) (simp_all add: sort_numbers_def sorted_insert_number)

lemma array_at_nat:
  "array_at xs (Fin (of_nat k)) = (if k < length xs then Some (xs ! k) else None)"
  by (simp add: array_at_def)

lemma quantile_Nil: "quantile [] q = Some (Fin 0)"
  by (simp add: quantile_def)

lemma quantile_single: "quantile [x] (Fin r) = Some x"
  by (simp add: quantile_def array_at_def minus_number_def)

text \<open>
  With \<open>q\<close> in \<open>[0, 1]\<close> the rank \<open>(n - 1) * q\<close>, rounded, stays between 0 and
  \<open>n - 1\<close>, so that \<open>sorted[base]\<close> is a sample and \<open>sorted[base + 1]\<close> is one unless
  \<open>base\<close> is the last index.
\<close>

lemma quantile_rank:
  assumes len: "length arr < 2 ^ 53" and r0: "0 \<le> r" and r1: "r \<le> 1"
  shows "\<exists>p. Fin (of_nat (length arr - 1)) * Fin r = Fin p \<and> 0 \<le> p \<and>
              p \<le> of_nat (length arr - 1)"
proof -
  define N where "N = length arr - 1"
  have N: "N < 2 ^ 53" using len by (simp add: N_def)
  have x0: "(0::rat) \<le> of_nat N * r" using r0 by simp
  have "of_nat N * r \<le> of_nat N * (1::rat)"
    using r1 by (intro mult_left_mono) simp_all
  then have xN: "of_nat N * r \<le> (of_nat N :: rat)" by simp
  from double_of_range [OF x0 xN N] show ?thesis by (simp add: N_def)
qed

lemma quantile_interpolation:
  assumes ne: "arr \<noteq> []" and len: "length arr < 2 ^ 53"
    and p: "Fin (of_nat (length arr - 1)) * Fin r = Fin p"
    and p0: "0 \<le> p" and pn: "p \<le> of_nat (length arr - 1)"
  shows "quantile arr (Fin r) =
     Some (let s = sort_numbers arr; lo = nat \<lfloor>p\<rfloor>; rest = Fin p - Fin (of_int \<lfloor>p\<rfloor>)
           in if lo + 1 < length arr then s ! lo + rest * (s ! (lo + 1) - s ! lo) else s ! lo)"
proof -
  define s where "s = sort_numbers arr"
  define lo where "lo = nat \<lfloor>p\<rfloor>"
  have n: "length s = length arr" by (simp add: s_def)
  have fl0: "0 \<le> \<lfloor>p\<rfloor>" using p0 by simp
  then have flo: "\<lfloor>p\<rfloor> = int lo" by (simp add: lo_def)
  have "of_int \<lfloor>p\<rfloor> \<le> p" by simp
  from this pn have "(of_int \<lfloor>p\<rfloor> :: rat) \<le> of_nat (length arr - 1)" by (rule order_trans)
  then have "(of_int \<lfloor>p\<rfloor> :: rat) \<le> of_int (int (length arr - 1))"
    by (simp only: of_int_of_nat_eq)
  then have "\<lfloor>p\<rfloor> \<le> int (length arr - 1)" by (simp only: of_int_le_iff)
  with flo have lo_le: "lo \<le> length arr - 1" by simp
  have lo_lt: "lo < length arr" using lo_le ne by (cases arr) simp_all
  have fl_eq: "(of_int \<lfloor>p\<rfloor> :: rat) = of_nat lo" by (simp add: flo)
  have base: "Math_floor (Fin p) = Fin (of_nat lo)" by (simp add: flo)
  have "Suc lo < 2 ^ 53" using lo_lt len by simp
  from double_of_nat [OF this]
  have next': "Fin (of_nat lo) + Fin 1 = Fin (of_nat (Suc lo))" by (simp add: add.commute)
  have at_lo: "array_at s (Fin (of_nat lo)) = Some (s ! lo)"
    using lo_lt by (simp add: array_at_nat n)
  have at_hi: "array_at s (Fin (of_nat (Suc lo))) =
      (if Suc lo < length arr then Some (s ! Suc lo) else None)"
    by (simp only: array_at_nat n)
  have q: "quantile arr (Fin r) =
      (case array_at s (Math_floor (Fin p) + Fin 1) of
         Some hi \<Rightarrow>
           Some (ToNumber (array_at s (Math_floor (Fin p)))
                 + (Fin p - Math_floor (Fin p)) * (hi - ToNumber (array_at s (Math_floor (Fin p)))))
       | None \<Rightarrow> array_at s (Math_floor (Fin p)))"
    unfolding quantile_def Let_def
    by (simp only: s_def [symmetric] n p length_0_conv ne if_False)
  show ?thesis
  proof (cases "Suc lo < length arr")
    case True
    have "quantile arr (Fin r) =
        Some (s ! lo + (Fin p - Fin (of_nat lo)) * (s ! Suc lo - s ! lo))"
      by (simp only: q base next' at_lo at_hi True if_True ToNumber_def option.case)
    with True show ?thesis
      unfolding Let_def s_def [symmetric] lo_def [symmetric] fl_eq by simp
  next
    case False
    have "quantile arr (Fin r) = Some (s ! lo)"
      by (simp only: q base next' at_lo at_hi False if_False option.case)
    with False show ?thesis
      unfolding Let_def s_def [symmetric] lo_def [symmetric] fl_eq by simp
  qed
qed

text \<open>
  C7 (amended). For every non-empty list of fewer than \<open>2 ^ 53\<close> samples, none of
  them \<open>NaN\<close>, and every \<open>q\<close> in \<open>[0, 1]\<close>, \<open>quantile\<close> sorts the samples
  ascending and takes the rank
  \<open>pos = (n - 1) * q\<close>, which lies between 0 and \<open>n - 1\<close>; with \<open>lo\<close> the floor of
  the rank and \<open>rest = pos - lo\<close>, it returns \<open>sorted[lo]\<close> when \<open>lo\<close> is the last
  index and otherwise \<open>sorted[lo] + rest * (sorted[lo + 1] - sorted[lo])\<close>, every
  operation being that of doubles. It returns 0 for the empty list, and the
  one-element list \<open>[5]\<close> yields 5 for every finite \<open>q\<close>.
\<close>

theorem quantile_linear_interpolation:
  "quantile [] q = Some (Fin 0) \<and>
   quantile [Fin 5] (Fin r) = Some (Fin 5) \<and>
   (arr \<noteq> [] \<and> NaN \<notin> set arr \<and> length arr < 2 ^ 53 \<and> 0 \<le> r \<and> r \<le> 1 \<longrightarrow>
      sorted_wrt (\<lambda>a b. \<not> b < a) (sort_numbers arr) \<and>
      (\<forall>x. count_list (sort_numbers arr) x = count_list arr x) \<and>
      (\<exists>p. Fin (of_nat (length arr - 1)) * Fin r = Fin p \<and> 0 \<le> p \<and>
            p \<le> of_nat (length arr - 1) \<and>
            quantile arr (Fin r) =
              Some (let s = sort_numbers arr; lo = nat \<lfloor>p\<rfloor>;
                        rest = Fin p - Fin (of_int \<lfloor>p\<rfloor>)
                    in if lo + 1 < length arr then s ! lo + rest * (s ! (lo + 1) - s ! lo)
                       else s ! lo)))"
proof (intro conjI impI)
  show "quantile [] q = Some (Fin 0)" by (rule quantile_Nil)
  show "quantile [Fin 5] (Fin r) = Some (Fin 5)" by (rule quantile_single)
next
  assume h: "arr \<noteq> [] \<and> NaN \<notin> set arr \<and> length arr < 2 ^ 53 \<and> 0 \<le> r \<and> r \<le> 1"
  show "sorted_wrt (\<lambda>a b. \<not> b < a) (sort_numbers arr)" by (rule sorted_sort_numbers)
  show "\<forall>x. count_list (sort_numbers arr) x = count_list arr x"
    by (simp add: count_sort_numbers)
  from h quantile_rank [of arr r] obtain p where
    p: "Fin (of_nat (length arr - 1)) * Fin r = Fin p" "0 \<le> p" "p \<le> of_nat (length arr - 1)"
    by blast
  from h quantile_interpolation [OF _ _ p] p
  show "\<exists>p. Fin (of_nat (length arr - 1)) * Fin r = Fin p \<and> 0 \<le> p \<and>
            p \<le> of_nat (length arr - 1) \<and>
            quantile arr (Fin r) =
              Some (let s = sort_numbers arr; lo = nat \<lfloor>p\<rfloor>;
                        rest = Fin p - Fin (of_int \<lfloor>p\<rfloor>)
                    in if lo + 1 < length arr then s ! lo + rest * (s ! (lo + 1) - s ! lo)
                       else s ! lo)"
    by blast
qed

theorem quantile_linear_interpolation_witness:
  "[Fin 4, Fin 1, Fin 3, Fin 2] \<noteq> [] \<and> NaN \<notin> set [Fin 4, Fin 1, Fin 3, Fin 2] \<and>
   length [Fin 4, Fin 1, Fin 3, Fin 2] < 2 ^ 53 \<and>
   (0::rat) \<le> 1 / 4 \<and> (1 / 4 :: rat) \<le> 1 \<and>
   sort_numbers [Fin 4, Fin 1, Fin 3, Fin 2] = [Fin 1, Fin 2, Fin 3, Fin 4] \<and>
   sorted_wrt (\<lambda>a b. \<not> b < a) (sort_numbers [Fin 4, Fin 1, Fin 3, Fin 2]) \<and>
   Fin (of_nat (length [Fin 4, Fin 1, Fin 3, Fin 2] - 1)) * Fin (1 / 4) = Fin (3 / 4) \<and>
   quantile [Fin 4, Fin 1, Fin 3, Fin 2] (Fin (1 / 4)) =
     Some (Fin 1 + (Fin (3 / 4) - Fin 0) * (Fin 2 - Fin 1)) \<and>
   Fin 1 + (Fin (3 / 4) - Fin 0) * (Fin 2 - Fin 1) = Fin (7 / 4)"
proof -
  let ?arr = "[Fin 4, Fin 1, Fin 3, Fin 2]"
  have h: "?arr \<noteq> [] \<and> NaN \<notin> set ?arr \<and> length ?arr < 2 ^ 53 \<and>
      (0::rat) \<le> 1 / 4 \<and> (1 / 4 :: rat) \<le> 1"
    by simp
  have s: "sort_numbers ?arr = [Fin 1, Fin 2, Fin 3, Fin 4]"
    by code_simp
  have pos: "Fin (of_nat (length ?arr - 1)) * Fin (1 / 4) = Fin (3 / 4)"
    by code_simp
  have fl: "\<lfloor>3 / 4 :: rat\<rfloor> = 0"
    by (simp add: floor_eq_iff)
  have v: "Fin 1 + (Fin (3 / 4) - Fin 0) * (Fin 2 - Fin 1) = Fin (7 / 4)"
    by code_simp
  from quantile_linear_interpolation [where r = "1 / 4" and arr = ?arr] h
  have so: "sorted_wrt (\<lambda>a b. \<not> b < a) (sort_numbers ?arr)"
    and ex: "\<exists>p. Fin (of_nat (length ?arr - 1)) * Fin (1 / 4) = Fin p \<and> 0 \<le> p \<and>
            p \<le> of_nat (length ?arr - 1) \<and>
            quantile ?arr (Fin (1 / 4)) =
              Some (let s = sort_numbers ?arr; lo = nat \<lfloor>p\<rfloor>;
                        rest = Fin p - Fin (of_int \<lfloor>p\<rfloor>)
                    in if lo + 1 < length ?arr then s ! lo + rest * (s ! (lo + 1) - s ! lo)
                       else s ! lo)"
    by blast+
  from ex obtain p where
    p: "Fin (of_nat (length ?arr - 1)) * Fin (1 / 4) = Fin p"
    and q: "quantile ?arr (Fin (1 / 4)) =
              Some (let s = sort_numbers ?arr; lo = nat \<lfloor>p\<rfloor>;
                        rest = Fin p - Fin (of_int \<lfloor>p\<rfloor>)
                    in if lo + 1 < length ?arr then s ! lo + rest * (s ! (lo + 1) - s ! lo)
                       else s ! lo)"
    by blast
  from p pos have "p = 3 / 4" by simp
  with q have "quantile ?arr (Fin (1 / 4)) =
      Some (Fin 1 + (Fin (3 / 4) - Fin 0) * (Fin 2 - Fin 1))"
    unfolding s Let_def by (simp add: fl del: plus_number.simps times_number.simps)
  with h s so pos v show ?thesis by (intro conjI) simp_all
qed

text \<open>
  C7 as first stated fails here. The rank is 0, where the interpolation between the
  floor and the ceiling of the rank is the least sample. The two samples are finite,
  \<open>2 ^ 1023\<close> (about \<open>9e307\<close>) and its negation: their difference overflows to
  infinity, and 0 times infinity is \<open>NaN\<close>. The same happens with an infinite sample.
  And with \<open>q\<close> not a number the one-element list \<open>[5]\<close> yields \<open>undefined\<close>.
\<close>

theorem quantile_overflow_counterexample:
  "sort_numbers [Fin huge, Fin (- huge)] = [Fin (- huge), Fin huge] \<and>
   Fin (of_nat (length [Fin huge, Fin (- huge)] - 1)) * Fin 0 = Fin 0 \<and>
   quantile [Fin huge, Fin (- huge)] (Fin 0) = Some NaN \<and>
   NaN \<noteq> Fin (- huge) \<and>
   quantile [PosInf, Fin 1] (Fin 0) = Some NaN \<and>
   NaN \<noteq> Fin 1 \<and>
   quantile [Fin 5] NaN = None"
proof -
  have h: "- huge < huge" by (simp add: huge_def)
  have s: "sort_numbers [Fin huge, Fin (- huge)] = [Fin (- huge), Fin huge]"
    using h by (simp add: sort_numbers_def)
  have "(2::rat) ^ 1024 \<le> huge + huge" by (simp add: huge_def)
  then have "double_of (huge + huge) = PosInf" by (rule double_of_overflow)
  then have d: "Fin huge - Fin (- huge) = PosInf" by (simp add: minus_number_def)
  have z: "Fin 0 - Fin 0 = Fin 0"
    by (simp add: minus_number_def)
  have q: "quantile [Fin huge, Fin (- huge)] (Fin 0) = Some NaN"
    unfolding quantile_def Let_def s
    by (simp add: array_at_def ToNumber_def d z)
  have i: "quantile [PosInf, Fin 1] (Fin 0) = Some NaN"
    by code_simp
  have u: "quantile [Fin 5] NaN = None"
    by code_simp
  from s q i u show ?thesis by simp
qed

text \<open>
  Rounding is that of the engine: \<open>(0.1 + 0.2) / 2\<close> is \<open>0.15000000000000002\<close>, one
  unit in the last place above the double next to \<open>0.15\<close>, and the mean of \<open>2 ^ 1023\<close>
  and itself is infinite.
\<close>

lemma double_of_tenth: "double_of (1 / 10) = Fin (3602879701896397 / 36028797018963968)"
proof -
  have "round_half_even ((1 / 10) / 2 powi (- 4 - 52)) = 7205759403792794"
    using round_half_even_cases [of 7205759403792793 "(1 / 10) / 2 powi (- 4 - 52)"] by simp
  from double_of_binade [OF _ _ _ _ this] show ?thesis by simp
qed

lemma double_of_fifth: "double_of (1 / 5) = Fin (3602879701896397 / 18014398509481984)"
proof -
  have "round_half_even ((1 / 5) / 2 powi (- 3 - 52)) = 7205759403792794"
    using round_half_even_cases [of 7205759403792793 "(1 / 5) / 2 powi (- 3 - 52)"] by simp
  from double_of_binade [OF _ _ _ _ this] show ?thesis by simp
qed

lemma median_rounds:
  "median [double_of (1 / 10), double_of (1 / 5)] = Fin (1351079888211149 / 9007199254740992) \<and>
   double_of (3 / 20) = Fin (5404319552844595 / 36028797018963968) \<and>
   (5404319552844595 / 36028797018963968 :: rat) < 1351079888211149 / 9007199254740992"
proof -
  have "round_half_even
      ((3602879701896397 / 36028797018963968 + 3602879701896397 / 18014398509481984)
        / 2 powi (- 2 - 52)) = 5404319552844596"
    using round_half_even_cases [of 5404319552844595
      "(3602879701896397 / 36028797018963968 + 3602879701896397 / 18014398509481984)
        / 2 powi (- 2 - 52)"] by simp
  from double_of_binade [OF _ _ _ _ this]
  have sum: "double_of (3602879701896397 / 36028797018963968 + 3602879701896397 / 18014398509481984)
      = Fin (1351079888211149 / 4503599627370496)"
    by simp
  have hf: "double_of (1351079888211149 / 4503599627370496 / 2) =
      Fin (1351079888211149 / 9007199254740992)"
    using double_of_dyadic [of 53 "1351079888211149 / 9007199254740992" 1351079888211149]
    by simp
  have m: "median [double_of (1 / 10), double_of (1 / 5)] = Fin (1351079888211149 / 9007199254740992)"
    unfolding double_of_tenth double_of_fifth
    using sum hf by (simp add: median_def sort_numbers_def)
  have "round_half_even ((3 / 20) / 2 powi (- 3 - 52)) = 5404319552844595"
    using round_half_even_cases [of 5404319552844595 "(3 / 20) / 2 powi (- 3 - 52)"] by simp
  from double_of_binade [OF _ _ _ _ this]
  have n: "double_of (3 / 20) = Fin (5404319552844595 / 36028797018963968)" by simp
  from m n show ?thesis by simp
qed

lemma median_overflows: "median [Fin huge, Fin huge] = PosInf"
proof -
  have "(2::rat) ^ 1024 \<le> huge + huge" by (simp add: huge_def)
  then have "double_of (huge + huge) = PosInf" by (rule double_of_overflow)
  then show ?thesis by (simp add: median_def sort_numbers_def)
qed

subsection \<open>Objects\<close>

lemma obj_keys_Nil [simp]: "obj_keys [] = []"
  by (simp add: obj_keys_def)

lemma obj_keys_Cons [simp]: "obj_keys (p # ob) = fst p # obj_keys ob"
  by (simp add: obj_keys_def)

lemma obj_keys_eq_Nil [simp]: "obj_keys ob = [] \<longleftrightarrow> ob = []"
  by (simp add: obj_keys_def)

lemma map_of_None_keys: "map_of ob k = None \<longleftrightarrow> k \<notin> set (obj_keys ob)"
  by (simp add: obj_keys_def map_of_eq_None_iff)

lemma obj_replace_keys: "obj_keys (obj_replace k v ob) = obj_keys ob"
  by (induction ob) auto

lemma map_of_obj_replace:
  "map_of (obj_replace k v ob) k' =
     (if k' = k \<and> k \<in> set (obj_keys ob) then Some v else map_of ob k')"
  by (induction ob) (auto simp: map_of_None_keys)

lemma obj_insert_keys: "set (obj_keys (obj_insert k v ob)) = insert k (set (obj_keys ob))"
proof (induction ob)
  case Nil
  then show ?case by simp
next
  case (Cons p ob)
  then show ?case by (cases p) (simp add: insert_commute)
qed

lemma map_of_obj_insert:
  "k \<notin> set (obj_keys ob) \<Longrightarrow>
   map_of (obj_insert k v ob) k' = (if k' = k then Some v else map_of ob k')"
  by (induction ob) auto

lemma distinct_obj_insert:
  "k \<notin> set (obj_keys ob) \<Longrightarrow> distinct (obj_keys ob) \<Longrightarrow> distinct (obj_keys (obj_insert k v ob))"
  by (induction ob) (auto simp: obj_insert_keys)

lemma obj_insert_keys_cong:
  "obj_keys ob = obj_keys ob' \<Longrightarrow> obj_keys (obj_insert k v ob) = obj_keys (obj_insert k v' ob')"
proof (induction ob arbitrary: ob')
  case Nil
  then have "ob' = []" by (metis obj_keys_Nil obj_keys_eq_Nil)
  then show ?case by simp
next
  case (Cons p ob)
  then obtain p' ob'' where ob': "ob' = p' # ob''" by (cases ob') auto
  with Cons.prems have "fst p = fst p'" "obj_keys ob = obj_keys ob''" by auto
  with Cons.IH [of ob''] ob' show ?case by (cases p; cases p') auto
qed

lemma map_of_obj_set: "map_of (obj_set k v ob) k' = (if k' = k then Some v else map_of ob k')"
  by (auto simp: obj_set_def map_of_obj_replace map_of_obj_insert)

lemma obj_get_obj_set: "obj_get (obj_set k v ob) k' = (if k' = k then v else obj_get ob k')"
  by (simp add: obj_get_def map_of_obj_set)

lemma obj_set_keys: "set (obj_keys (obj_set k v ob)) = insert k (set (obj_keys ob))"
  by (auto simp: obj_set_def obj_replace_keys obj_insert_keys)

lemma distinct_obj_set: "distinct (obj_keys ob) \<Longrightarrow> distinct (obj_keys (obj_set k v ob))"
  by (simp add: obj_set_def obj_replace_keys distinct_obj_insert)

lemma obj_set_keys_cong:
  "obj_keys ob = obj_keys ob' \<Longrightarrow> obj_keys (obj_set k v ob) = obj_keys (obj_set k v' ob')"
  using obj_insert_keys_cong [of ob ob' k v v']
  by (simp add: obj_set_def obj_replace_keys)

lemma obj_set_present_keys:
  "k \<in> set (obj_keys ob) \<Longrightarrow> obj_keys (obj_set k v ob) = obj_keys ob"
  by (simp add: obj_set_def obj_replace_keys)

lemma obj_eqI:
  "obj_keys a = obj_keys b \<Longrightarrow> distinct (obj_keys a) \<Longrightarrow>
   (\<And>k. k \<in> set (obj_keys a) \<Longrightarrow> map_of a k = map_of b k) \<Longrightarrow> a = b"
proof (induction a arbitrary: b)
  case Nil
  then show ?case by (metis obj_keys_Nil obj_keys_eq_Nil)
next
  case (Cons p a)
  then obtain q b' where b: "b = q # b'" by (cases b) auto
  obtain k v where p: "p = (k, v)" by (cases p)
  obtain k' v' where q: "q = (k', v')" by (cases q)
  from Cons.prems(1) b p q have kk: "k' = k" and keys: "obj_keys a = obj_keys b'" by auto
  from Cons.prems(3) [of k] b p q kk have vv: "v' = v" by simp
  have "a = b'"
  proof (rule Cons.IH [OF keys])
    show "distinct (obj_keys a)" using Cons.prems(2) by simp
  next
    fix x assume x: "x \<in> set (obj_keys a)"
    with Cons.prems(2) p have "x \<noteq> k" by auto
    with Cons.prems(3) [of x] x b p q kk show "map_of a x = map_of b' x" by auto
  qed
  with b p q kk vv show ?case by simp
qed

lemma obj_get_in_keys:
  "k \<in> set (obj_keys ob) \<Longrightarrow> map_of ob k = Some (obj_get ob k)"
  using map_of_None_keys [of ob k] by (cases "map_of ob k") (simp_all add: obj_get_def)

lemma obj_get_not_in_keys:
  "k \<notin> set (obj_keys ob) \<Longrightarrow> obj_get ob k = Undefined"
  by (simp add: obj_get_def map_of_None_keys [THEN iffD2])

lemma obj_set_same:
  assumes "distinct (obj_keys ob)" "k \<in> set (obj_keys ob)" "obj_get ob k = v"
  shows "obj_set k v ob = ob"
proof (rule obj_eqI)
  show "obj_keys (obj_set k v ob) = obj_keys ob" using assms(2) by (rule obj_set_present_keys)
  show "distinct (obj_keys (obj_set k v ob))" using assms(1) by (rule distinct_obj_set)
next
  fix x
  show "map_of (obj_set k v ob) x = map_of ob x"
    using obj_get_in_keys [OF assms(2)] assms(3) by (simp add: map_of_obj_set)
qed

text \<open>the loops of detectIssues\<close>

lemma map_of_fold_flag:
  "map_of (fold (\<lambda>h m. if P h then obj_set h (g h) m else m) hs m0) k =
     (if k \<in> set hs \<and> P k then Some (g k) else map_of m0 k)"
  by (induction hs arbitrary: m0) (auto simp: map_of_obj_set)

lemma keys_fold_flag:
  "set (obj_keys (fold (\<lambda>h m. if P h then obj_set h (g h) m else m) hs m0)) =
     set (obj_keys m0) \<union> {h \<in> set hs. P h}"
  by (induction hs arbitrary: m0) (auto simp: obj_set_keys)

lemma distinct_fold_flag:
  "distinct (obj_keys m0) \<Longrightarrow>
   distinct (obj_keys (fold (\<lambda>h m. if P h then obj_set h (g h) m else m) hs m0))"
  by (induction hs arbitrary: m0) (auto simp: distinct_obj_set)

text \<open>rows as objects\<close>

lemma fold_obj_set_keys:
  "set (obj_keys (fold (\<lambda>(h, i) ob. obj_set h (f i) ob) kvs ob)) = set (obj_keys ob) \<union> fst ` set kvs"
  by (induction kvs arbitrary: ob) (auto simp: obj_set_keys)

lemma fold_obj_set_distinct:
  "distinct (obj_keys ob) \<Longrightarrow> distinct (obj_keys (fold (\<lambda>(h, i) ob. obj_set h (f i) ob) kvs ob))"
  by (induction kvs arbitrary: ob) (auto simp: distinct_obj_set)

lemma fold_obj_set_keys_cong:
  "obj_keys ob = obj_keys ob' \<Longrightarrow>
   obj_keys (fold (\<lambda>(h, i) ob. obj_set h (f i) ob) kvs ob) =
   obj_keys (fold (\<lambda>(h, i) ob. obj_set h (f' i) ob) kvs ob')"
proof (induction kvs arbitrary: ob ob')
  case Nil
  then show ?case by simp
next
  case (Cons p kvs)
  obtain h i where p: "p = (h, i)" by (cases p)
  show ?case
    using Cons.IH [OF obj_set_keys_cong [OF Cons.prems, of h "f i" "f' i"]] p by simp
qed

lemma fold_obj_set_map_of:
  "map_of (fold (\<lambda>(h, i) ob. obj_set h (f i) ob) kvs ob) k =
     (case map_of (rev kvs) k of None \<Rightarrow> map_of ob k | Some i \<Rightarrow> Some (f i))"
proof (induction kvs arbitrary: ob)
  case Nil
  then show ?case by simp
next
  case (Cons p kvs)
  obtain h i where p: "p = (h, i)" by (cases p)
  show ?case
    by (simp add: p Cons.IH map_of_obj_set map_add_def split: option.splits)
qed

lemma toObject_keys: "set (obj_keys (toObject headers row)) = set headers"
proof -
  have "map fst (zip headers [0..<length headers]) = headers"
    by (rule map_fst_zip) simp
  then have "fst ` set (zip headers [0..<length headers]) = set headers"
    by (metis set_map)
  then show ?thesis by (simp add: toObject_def fold_obj_set_keys)
qed

lemma toObject_distinct: "distinct (obj_keys (toObject headers row))"
  by (simp add: toObject_def fold_obj_set_distinct)

lemma toObject_keys_cong: "obj_keys (toObject headers row) = obj_keys (toObject headers row')"
  unfolding toObject_def by (rule fold_obj_set_keys_cong) simp

lemma map_of_rev_zip_upt:
  "map_of (rev (zip hs [a..<a + length hs])) k = Some i \<Longrightarrow>
     a \<le> i \<and> i < a + length hs \<and> hs ! (i - a) = k \<and> (\<forall>j. i < j \<and> j < a + length hs \<longrightarrow> hs ! (j - a) \<noteq> k)"
proof (induction hs arbitrary: a)
  case Nil
  then show ?case by simp
next
  case (Cons h hs)
  have eq: "[a..<a + length (h # hs)] = a # [Suc a..<Suc a + length hs]"
    using upt_conv_Cons [of a "a + length (h # hs)"] by simp
  show ?case
  proof (cases "map_of (rev (zip hs [Suc a..<Suc a + length hs])) k")
    case None
    with Cons.prems eq have hk: "h = k" and ia: "i = a"
      by (auto simp: map_add_def split: if_splits)
    have "\<forall>j. a < j \<and> j < a + length (h # hs) \<longrightarrow> (h # hs) ! (j - a) \<noteq> k"
    proof (intro allI impI)
      fix j assume j: "a < j \<and> j < a + length (h # hs)"
      then have jl: "j - Suc a < length hs" by auto
      have "k \<notin> fst ` set (zip hs [Suc a..<Suc a + length hs])"
        using None by (simp add: map_of_eq_None_iff)
      moreover have "map fst (zip hs [Suc a..<Suc a + length hs]) = hs"
        by (rule map_fst_zip) (simp only: length_upt add_diff_cancel_left')
      then have "fst ` set (zip hs [Suc a..<Suc a + length hs]) = set hs"
        by (metis set_map)
      ultimately have "k \<notin> set hs" by simp
      moreover have "(h # hs) ! (j - a) = hs ! (j - Suc a)"
      proof -
        have "j - a = Suc (j - Suc a)" using j by arith
        then show ?thesis by simp
      qed
      ultimately show "(h # hs) ! (j - a) \<noteq> k"
        using jl by (metis nth_mem)
    qed
    with hk ia show ?thesis by simp
  next
    case (Some i')
    with Cons.prems eq have ii: "i' = i" by (simp add: map_add_def)
    from Cons.IH [of "Suc a" ] Some ii
    have IH: "Suc a \<le> i \<and> i < Suc a + length hs \<and> hs ! (i - Suc a) = k \<and>
       (\<forall>j. i < j \<and> j < Suc a + length hs \<longrightarrow> hs ! (j - Suc a) \<noteq> k)" by simp
    have "i - a = Suc (i - Suc a)" using IH by arith
    with IH have "(h # hs) ! (i - a) = k" by simp
    moreover have "\<forall>j. i < j \<and> j < a + length (h # hs) \<longrightarrow> (h # hs) ! (j - a) \<noteq> k"
    proof (intro allI impI)
      fix j assume j: "i < j \<and> j < a + length (h # hs)"
      with IH have "hs ! (j - Suc a) \<noteq> k" by simp
      moreover have "(h # hs) ! (j - a) = hs ! (j - Suc a)"
      proof -
        have "j - a = Suc (j - Suc a)" using j IH by arith
        then show ?thesis by simp
      qed
      ultimately show "(h # hs) ! (j - a) \<noteq> k" by simp
    qed
    ultimately show ?thesis using IH by simp
  qed
qed

lemma toObject_get:
  assumes "k \<in> set headers"
  shows "\<exists>i < length headers. headers ! i = k \<and> (\<forall>j. i < j \<and> j < length headers \<longrightarrow> headers ! j \<noteq> k)
           \<and> obj_get (toObject headers row) k = or_empty (cell_at row i)"
proof -
  have "map fst (zip headers [0..<length headers]) = headers"
    by (rule map_fst_zip) simp
  then have "fst ` set (rev (zip headers [0..<length headers])) = set headers"
    by (metis set_map set_rev)
  with assms have "map_of (rev (zip headers [0..<length headers])) k \<noteq> None"
    by (simp add: map_of_eq_None_iff)
  then obtain i where i: "map_of (rev (zip headers [0..<0 + length headers])) k = Some i"
    by auto
  from map_of_rev_zip_upt [OF i]
  have "i < length headers" "headers ! i = k"
       "\<forall>j. i < j \<and> j < length headers \<longrightarrow> headers ! j \<noteq> k" by simp_all
  moreover have "obj_get (toObject headers row) k = or_empty (cell_at row i)"
    using i by (simp add: obj_get_def toObject_def fold_obj_set_map_of)
  ultimately show ?thesis by blast
qed

subsection \<open>Detection\<close>

lemma detect_missing_map_of:
  "map_of (detect_missing ns headers od) h =
     (let n = length (filter (\<lambda>row. missing_value ns (obj_get row h)) od)
      in if h \<in> set headers \<and> 0 < n then Some n else None)"
  unfolding detect_missing_def Let_def
  using map_of_fold_flag [of "\<lambda>h. 0 < length (filter (\<lambda>row. missing_value ns (obj_get row h)) od)"
      "\<lambda>h. length (filter (\<lambda>row. missing_value ns (obj_get row h)) od)" headers "[]" h]
  by simp

lemma detect_outliers_map_of:
  "map_of (detect_outliers pf ns headers od) h =
     (let vals = numericValues pf ns h od
      in if h \<in> set headers \<and> 10 < length vals \<and> 0 < outlier_count vals
         then Some (outlier_count vals) else None)"
  unfolding detect_outliers_def Let_def
  using map_of_fold_flag [of "\<lambda>h. 10 < length (numericValues pf ns h od) \<and> 0 < outlier_count (numericValues pf ns h od)"
      "\<lambda>h. outlier_count (numericValues pf ns h od)" headers "[]" h]
  by simp

lemma quantile_defined:
  assumes len: "length arr < 2 ^ 53" and r0: "0 \<le> r" and r1: "r \<le> 1"
  shows "\<exists>v. quantile arr (Fin r) = Some v"
proof (cases "arr = []")
  case True
  then show ?thesis by (simp add: quantile_Nil)
next
  case False
  from quantile_rank [OF len r0 r1] obtain p where
    p: "Fin (of_nat (length arr - 1)) * Fin r = Fin p" "0 \<le> p" "p \<le> of_nat (length arr - 1)"
    by blast
  from quantile_interpolation [OF False len p] show ?thesis by blast
qed

lemma numericValues_column:
  "numericValues pf ns header (toObjectData headers data) =
     filter (\<lambda>val. \<not> isNaN val)
       (map (\<lambda>row. pf (String_of ns (obj_get (toObject headers row) header))) data)"
  by (simp add: numericValues_def toObjectData_def o_def)

text \<open>
  C6. For every column, the values of the outlier test are the cells of the column
  that \<open>parseFloat\<close> reads as a number (not \<open>NaN\<close>). The report has an entry for the
  column exactly when there are more than 10 of them and the count of outliers is not
  zero, and the entry is that count; a value counts as an outlier exactly when it is
  below \<open>Q1 - 3 * IQR\<close> or above \<open>Q3 + 3 * IQR\<close>, with \<open>IQR = Q3 - Q1\<close>, the
  quartiles being the results of \<open>quantile\<close> at 0.25 and 0.75 (which are numbers,
  not \<open>undefined\<close>), in the arithmetic of doubles.
\<close>

theorem outliers_report:
  "(let vals = filter (\<lambda>val. \<not> isNaN val)
                 (map (\<lambda>row. pf (String_of ns (obj_get (toObject headers row) header))) data);
        q1 = ToNumber (quantile vals (Fin (1 / 4)));
        q3 = ToNumber (quantile vals (Fin (3 / 4)));
        iqr = q3 - q1;
        n = length (filter (\<lambda>val. val < q1 - Fin 3 * iqr \<or> q3 + Fin 3 * iqr < val) vals)
    in map_of (outliers (detectIssues pf ns data headers)) header =
         (if header \<in> set headers \<and> 10 < length vals \<and> 0 < n then Some n else None) \<and>
       (length data < 2 ^ 53 \<longrightarrow>
          (\<exists>a b. quantile vals (Fin (1 / 4)) = Some a \<and> quantile vals (Fin (3 / 4)) = Some b)))"
proof -
  define vals where "vals = filter (\<lambda>val. \<not> isNaN val)
      (map (\<lambda>row. pf (String_of ns (obj_get (toObject headers row) header))) data)"
  have nv: "numericValues pf ns header (toObjectData headers data) = vals"
    by (simp add: numericValues_column vals_def)
  have entry: "map_of (outliers (detectIssues pf ns data headers)) header =
      (if header \<in> set headers \<and> 10 < length vals \<and> 0 < outlier_count vals
       then Some (outlier_count vals) else None)"
    by (simp add: detectIssues_def Let_def detect_outliers_map_of nv)
  have quart: "\<exists>a b. quantile vals (Fin (1 / 4)) = Some a \<and> quantile vals (Fin (3 / 4)) = Some b"
    if "length data < 2 ^ 53"
  proof -
    have "length vals \<le> length data" by (simp add: vals_def le_trans [OF length_filter_le])
    with that have l: "length vals < 2 ^ 53" by simp
    from quantile_defined [OF l, of "1 / 4"] quantile_defined [OF l, of "3 / 4"]
    show ?thesis by simp
  qed
  show ?thesis
    unfolding Let_def vals_def [symmetric]
    using entry quart unfolding outlier_count_def Let_def by blast
qed

theorem outliers_report_witness:
  "length outlier_table < 2 ^ 53 \<and> ''x'' \<in> set [''x''] \<and>
   filter (\<lambda>val. \<not> isNaN val)
     (map (\<lambda>row. parseFloat (String_of Number_toString (obj_get (toObject [''x''] row) ''x'')))
        outlier_table) =
     [Fin 1, Fin 2, Fin 3, Fin 4, Fin 5, Fin 6, Fin 7, Fin 8, Fin 9, Fin 10, Fin 11, Fin 99] \<and>
   quantile [Fin 1, Fin 2, Fin 3, Fin 4, Fin 5, Fin 6, Fin 7, Fin 8, Fin 9, Fin 10, Fin 11, Fin 99]
     (Fin (1 / 4)) = Some (Fin (15 / 4)) \<and>
   quantile [Fin 1, Fin 2, Fin 3, Fin 4, Fin 5, Fin 6, Fin 7, Fin 8, Fin 9, Fin 10, Fin 11, Fin 99]
     (Fin (3 / 4)) = Some (Fin (37 / 4)) \<and>
   Fin (15 / 4) - Fin 3 * (Fin (37 / 4) - Fin (15 / 4)) = Fin (- (51 / 4)) \<and>
   Fin (37 / 4) + Fin 3 * (Fin (37 / 4) - Fin (15 / 4)) = Fin (103 / 4) \<and>
   map_of (outliers (detectIssues parseFloat Number_toString outlier_table [''x''])) ''x'' = Some 1"
proof -
  let ?vals = "[Fin 1, Fin 2, Fin 3, Fin 4, Fin 5, Fin 6, Fin 7, Fin 8, Fin 9, Fin 10, Fin 11, Fin 99]"
  have l: "length outlier_table < 2 ^ 53" by (simp add: outlier_table_def)
  have nv: "filter (\<lambda>val. \<not> isNaN val)
     (map (\<lambda>row. parseFloat (String_of Number_toString (obj_get (toObject [''x''] row) ''x'')))
        outlier_table) = ?vals"
    by code_simp
  have q1: "quantile ?vals (Fin (1 / 4)) = Some (Fin (15 / 4))"
    by code_simp
  have q3: "quantile ?vals (Fin (3 / 4)) = Some (Fin (37 / 4))"
    by code_simp
  have lo: "Fin (15 / 4) - Fin 3 * (Fin (37 / 4) - Fin (15 / 4)) = Fin (- (51 / 4))"
    by code_simp
  have hi: "Fin (37 / 4) + Fin 3 * (Fin (37 / 4) - Fin (15 / 4)) = Fin (103 / 4)"
    by code_simp
  have n: "length (filter (\<lambda>val. val < Fin (- (51 / 4)) \<or> Fin (103 / 4) < val) ?vals) = 1"
    by simp
  from outliers_report [of parseFloat Number_toString "[''x'']" "''x''" outlier_table]
  have "map_of (outliers (detectIssues parseFloat Number_toString outlier_table [''x''])) ''x'' = Some 1"
    unfolding Let_def nv q1 q3 ToNumber_def option.case lo hi n by simp
  with l nv q1 q3 lo hi show ?thesis by simp
qed

subsection \<open>Cleaning steps\<close>

lemma column_values_length [simp]: "length (column_values c od) = length od"
  by (simp add: column_values_def)

lemma column_values_nth: "i < length od \<Longrightarrow> column_values c od ! i = obj_get (od ! i) c"
  by (simp add: column_values_def)

lemma column_values_map_set:
  "column_values c' (map (\<lambda>row. obj_set c (g (obj_get row c)) row) od) =
     (if c' = c then map g (column_values c od) else column_values c' od)"
  by (simp add: column_values_def obj_get_obj_set o_def)

lemma fixWhitespace_fst:
  "fst (fixWhitespace ns c st) =
     map (\<lambda>row. obj_set c ((\<lambda>v. Str (trim (replace_nbsp (toString ns v)))) (obj_get row c)) row) (fst st)"
  by (cases st) (simp add: fixWhitespace_def)

lemma fixWhitespace_snd:
  "snd (fixWhitespace ns c st) = snd st @ [\<lparr> message = Fixed_whitespace c, type' = Success \<rparr>]"
  by (cases st) (simp add: fixWhitespace_def)

lemma maxLength_of_column:
  "maxLength_of ns c od = foldr max (map (\<lambda>v. length (toString ns v)) (column_values c od)) 0"
  by (simp add: maxLength_of_def column_values_def o_def)

lemma restoreLeadingZeros_fst:
  "fst (restoreLeadingZeros ns c st) =
     map (\<lambda>row. obj_set c ((\<lambda>v. Str (pad_value ns (maxLength_of ns c (fst st)) v)) (obj_get row c)) row) (fst st)"
  by (cases st) (simp add: restoreLeadingZeros_def maxLength_of_def Let_def)

lemma restoreLeadingZeros_snd:
  "snd (restoreLeadingZeros ns c st) = snd st @ [\<lparr> message = Restored_leading_zeros c, type' = Success \<rparr>]"
  by (cases st) (simp add: restoreLeadingZeros_def Let_def)

lemma fillMissing_fst:
  "fst (fillMissing pf ns issues c st) =
     (if filter (nonEmpty_value ns) (column_values c (fst st)) \<noteq> []
      then map (\<lambda>row. obj_set c
             (fill_cell ns (fillValue pf ns (filter (nonEmpty_value ns) (column_values c (fst st))))
                (obj_get row c)) row) (fst st)
      else fst st)"
  by (cases st) (simp add: fillMissing_def Let_def column_values_def)

lemma fillMissing_snd:
  "snd (fillMissing pf ns issues c st) =
     snd st @ (if filter (nonEmpty_value ns) (column_values c (fst st)) \<noteq> []
               then [\<lparr> message = Filled_missing_values (map_of (missing issues) c) c, type' = Success \<rparr>]
               else [])"
  by (cases st) (simp add: fillMissing_def Let_def column_values_def)

lemma fixWhitespace_column:
  "column_values c' (fst (fixWhitespace ns c st)) =
     (if c' = c then map (\<lambda>v. Str (trim (replace_nbsp (toString ns v)))) (column_values c (fst st))
      else column_values c' (fst st))"
  unfolding fixWhitespace_fst by (rule column_values_map_set)

lemma restoreLeadingZeros_column:
  "column_values c' (fst (restoreLeadingZeros ns c st)) =
     (if c' = c then map (\<lambda>v. Str (pad_value ns (maxLength_of ns c (fst st)) v)) (column_values c (fst st))
      else column_values c' (fst st))"
  unfolding restoreLeadingZeros_fst by (rule column_values_map_set)

lemma fillMissing_column:
  "column_values c' (fst (fillMissing pf ns issues c st)) =
     (if c' = c then fill_column pf ns (column_values c (fst st)) else column_values c' (fst st))"
proof (cases "filter (nonEmpty_value ns) (column_values c (fst st)) = []")
  case True
  then show ?thesis by (simp add: fillMissing_fst fill_column_def)
next
  case False
  then show ?thesis
    using column_values_map_set [of c' c
        "fill_cell ns (fillValue pf ns (filter (nonEmpty_value ns) (column_values c (fst st))))" "fst st"]
    by (simp add: fillMissing_fst fill_column_def)
qed

text \<open>a loop over columns whose step for a column touches that column only\<close>

lemma fold_column_frame:
  assumes frame: "\<And>k st. k \<noteq> c \<Longrightarrow> column_values c (fst (F k st)) = column_values c (fst st)"
    and "c \<notin> set cs"
  shows "column_values c (fst (fold F cs st)) = column_values c (fst st)"
  using assms(2) by (induction cs arbitrary: st) (auto simp: frame)

lemma fold_column_once:
  assumes frame: "\<And>k st. k \<noteq> c \<Longrightarrow> column_values c (fst (F k st)) = column_values c (fst st)"
    and effect: "\<And>st. column_values c (fst (F c st)) = G (column_values c (fst st))"
    and "distinct cs" "c \<in> set cs"
  shows "column_values c (fst (fold F cs st)) = G (column_values c (fst st))"
  using assms(3,4)
proof (induction cs arbitrary: st)
  case Nil
  then show ?case by simp
next
  case (Cons k cs)
  show ?case
  proof (cases "k = c")
    case True
    with Cons.prems have "c \<notin> set cs" by simp
    from fold_column_frame [of c F cs, OF frame this] True effect
    show ?thesis by simp
  next
    case False
    with Cons.prems have "distinct cs" "c \<in> set cs" by auto
    from Cons.IH [OF this, of "F k st"] frame [OF False, of st]
    show ?thesis by simp
  qed
qed

lemma fold_length:
  assumes "\<And>k st. length (fst (F k st)) = length (fst st)"
  shows "length (fst (fold F cs st)) = length (fst st)"
  by (induction cs arbitrary: st) (auto simp: assms)

lemma fixWhitespace_length: "length (fst (fixWhitespace ns c st)) = length (fst st)"
  by (simp add: fixWhitespace_fst)

lemma restoreLeadingZeros_length: "length (fst (restoreLeadingZeros ns c st)) = length (fst st)"
  by (simp add: restoreLeadingZeros_fst)

lemma fillMissing_length: "length (fst (fillMissing pf ns issues c st)) = length (fst st)"
  by (simp add: fillMissing_fst)

lemma afterMissing_length:
  "length (fst (afterMissing pf ns issues headers csvData)) =
   length (fst (afterDuplicates ns issues headers csvData))"
  by (simp add: afterMissing_def afterLeadingZeros_def afterWhitespace_def
      fold_length [of "fillMissing pf ns issues", OF fillMissing_length]
      fold_length [of "restoreLeadingZeros ns", OF restoreLeadingZeros_length]
      fold_length [of "fixWhitespace ns", OF fixWhitespace_length])

lemma afterLeadingZeros_length:
  "length (fst (afterLeadingZeros ns issues headers csvData)) =
   length (fst (afterDuplicates ns issues headers csvData))"
  by (simp add: afterLeadingZeros_def afterWhitespace_def
      fold_length [of "restoreLeadingZeros ns", OF restoreLeadingZeros_length]
      fold_length [of "fixWhitespace ns", OF fixWhitespace_length])

lemma afterWhitespace_length:
  "length (fst (afterWhitespace ns issues headers csvData)) =
   length (fst (afterDuplicates ns issues headers csvData))"
  by (simp add: afterWhitespace_def
      fold_length [of "fixWhitespace ns", OF fixWhitespace_length])

lemma cleanData_Some:
  "csvData \<noteq> [] \<Longrightarrow>
   cleanData pf ns csvData headers (Some issues) =
     Some (map (\<lambda>row. map (\<lambda>header. obj_get row header) headers)
             (fst (afterMissing pf ns issues headers csvData)),
           snd (afterMissing pf ns issues headers csvData)
             @ [\<lparr> message = Data_cleaning_complete, type' = Success \<rparr>])"
  by (simp add: cleanData_def Let_def)

lemma cleaned_cell:
  "i < length od \<Longrightarrow> j < length headers \<Longrightarrow>
   map (\<lambda>row. map (\<lambda>header. obj_get row header) headers) od ! i ! j
     = column_values (headers ! j) od ! i"
  by (simp add: column_values_def)

lemma missing_value_iff: "missing_value ns v \<longleftrightarrow> \<not> nonEmpty_value ns v"
  by (auto simp: missing_value_def nonEmpty_value_def)

lemma removeDuplicates_snd:
  "snd (removeDuplicates ns issues st) =
     snd st @ (if 0 < duplicates issues
               then [\<lparr> message = Removed_duplicate_rows
                         (length (fst st) - length (uniqBy (fst st) (JSON_stringify ns))),
                       type' = Success \<rparr>]
               else [])"
  by (cases st) (simp add: removeDuplicates_def Let_def)

lemma removeDuplicates_fst:
  "fst (removeDuplicates ns issues st) =
     (if 0 < duplicates issues then uniqBy (fst st) (JSON_stringify ns) else fst st)"
  by (cases st) (simp add: removeDuplicates_def Let_def)

lemma fold_fixWhitespace_snd:
  "snd (fold (fixWhitespace ns) cs st) =
     snd st @ map (\<lambda>c. \<lparr> message = Fixed_whitespace c, type' = Success \<rparr>) cs"
  by (induction cs arbitrary: st) (simp_all add: fixWhitespace_snd)

lemma fold_restoreLeadingZeros_snd:
  "snd (fold (restoreLeadingZeros ns) cs st) =
     snd st @ map (\<lambda>c. \<lparr> message = Restored_leading_zeros c, type' = Success \<rparr>) cs"
  by (induction cs arbitrary: st) (simp_all add: restoreLeadingZeros_snd)

lemma fold_fillMissing_snd:
  "\<exists>fills. subseq fills cs \<and>
     snd (fold (fillMissing pf ns issues) cs st) =
       snd st @ map (\<lambda>c. \<lparr> message = Filled_missing_values (map_of (missing issues) c) c,
                             type' = Success \<rparr>) fills"
proof (induction cs arbitrary: st)
  case Nil
  then show ?case by simp
next
  case (Cons c cs)
  from Cons.IH [of "fillMissing pf ns issues c st"] obtain fills where
    f: "subseq fills cs"
       "snd (fold (fillMissing pf ns issues) cs (fillMissing pf ns issues c st)) =
          snd (fillMissing pf ns issues c st)
            @ map (\<lambda>c. \<lparr> message = Filled_missing_values (map_of (missing issues) c) c,
                             type' = Success \<rparr>) fills"
    by blast
  show ?case
  proof (cases "filter (nonEmpty_value ns) (column_values c (fst st)) = []")
    case True
    have "subseq fills (c # cs)" using f(1) by (rule list_emb_Cons)
    with True f have "subseq fills (c # cs) \<and>
       snd (fold (fillMissing pf ns issues) (c # cs) st) =
         snd st @ map (\<lambda>c. \<lparr> message = Filled_missing_values (map_of (missing issues) c) c,
                             type' = Success \<rparr>) fills"
      by (simp add: fillMissing_snd)
    then show ?thesis by blast
  next
    case False
    with f have "subseq (c # fills) (c # cs) \<and>
       snd (fold (fillMissing pf ns issues) (c # cs) st) =
         snd st @ map (\<lambda>c. \<lparr> message = Filled_missing_values (map_of (missing issues) c) c,
                             type' = Success \<rparr>) (c # fills)"
      by (simp add: fillMissing_snd)
    then show ?thesis by blast
  qed
qed

lemma afterLeadingZeros_snd:
  "snd (afterLeadingZeros ns issues headers csvData) =
     (if 0 < duplicates issues
      then [\<lparr> message = Removed_duplicate_rows
                (length csvData - length (uniqBy (toObjectData headers csvData) (JSON_stringify ns))),
              type' = Success \<rparr>]
      else [])
     @ map (\<lambda>c. \<lparr> message = Fixed_whitespace c, type' = Success \<rparr>) (obj_keys (whitespace issues))
     @ map (\<lambda>c. \<lparr> message = Restored_leading_zeros c, type' = Success \<rparr>)
         (obj_keys (leadingZeros issues))"
  by (simp add: afterLeadingZeros_def afterWhitespace_def afterDuplicates_def
      fold_restoreLeadingZeros_snd fold_fixWhitespace_snd removeDuplicates_snd toObjectData_def)

text \<open>
  C3 (amended). For every non-empty table and every issue report, the log of a cleaning
  run is, in this order: one entry for the removed duplicates when \<open>duplicates > 0\<close>
  and none otherwise; one entry for each column of the whitespace report; one for
  each column of the leadingZeros report; entries for columns of the missing report
  only, in their order; and a last entry, of severity \<open>success\<close>, that marks
  completion. So a step whose trigger is absent adds no entry, and cleaning a table
  with no issues gives the log of that one last entry.
\<close>

theorem cleaning_log_shape:
  assumes "csvData \<noteq> []"
  shows "\<exists>cleaned dups fills.
     cleanData pf ns csvData headers (Some issues) =
       Some (cleaned,
         dups
         @ map (\<lambda>c. \<lparr> message = Fixed_whitespace c, type' = Success \<rparr>)
             (obj_keys (whitespace issues))
         @ map (\<lambda>c. \<lparr> message = Restored_leading_zeros c, type' = Success \<rparr>)
             (obj_keys (leadingZeros issues))
         @ map (\<lambda>c. \<lparr> message = Filled_missing_values (map_of (missing issues) c) c,
                       type' = Success \<rparr>) fills
         @ [\<lparr> message = Data_cleaning_complete, type' = Success \<rparr>]) \<and>
     (if 0 < duplicates issues
      then \<exists>n. dups = [\<lparr> message = Removed_duplicate_rows n, type' = Success \<rparr>]
      else dups = []) \<and>
     subseq fills (obj_keys (missing issues))"
proof -
  from fold_fillMissing_snd [of "obj_keys (missing issues)" pf ns issues
      "afterLeadingZeros ns issues headers csvData"]
  obtain fills where f: "subseq fills (obj_keys (missing issues))"
    "snd (afterMissing pf ns issues headers csvData) =
       snd (afterLeadingZeros ns issues headers csvData)
         @ map (\<lambda>c. \<lparr> message = Filled_missing_values (map_of (missing issues) c) c,
                       type' = Success \<rparr>) fills"
    unfolding afterMissing_def by blast
  let ?cleaned = "map (\<lambda>row. map (\<lambda>header. obj_get row header) headers)
      (fst (afterMissing pf ns issues headers csvData))"
  let ?dups = "if 0 < duplicates issues
      then [\<lparr> message = Removed_duplicate_rows
                (length csvData - length (uniqBy (toObjectData headers csvData) (JSON_stringify ns))),
              type' = Success \<rparr>]
      else []"
  have eq: "cleanData pf ns csvData headers (Some issues) =
       Some (?cleaned,
         ?dups
         @ map (\<lambda>c. \<lparr> message = Fixed_whitespace c, type' = Success \<rparr>)
             (obj_keys (whitespace issues))
         @ map (\<lambda>c. \<lparr> message = Restored_leading_zeros c, type' = Success \<rparr>)
             (obj_keys (leadingZeros issues))
         @ map (\<lambda>c. \<lparr> message = Filled_missing_values (map_of (missing issues) c) c,
                       type' = Success \<rparr>) fills
         @ [\<lparr> message = Data_cleaning_complete, type' = Success \<rparr>])"
    using cleanData_Some [OF assms, of pf ns headers issues] f(2)
    by (simp add: afterLeadingZeros_snd)
  have d: "if 0 < duplicates issues
      then \<exists>n. ?dups = [\<lparr> message = Removed_duplicate_rows n, type' = Success \<rparr>]
      else ?dups = []"
    by simp
  from eq d f(1) show ?thesis by blast
qed

lemma fold_fillMissing_skip:
  assumes "filter (nonEmpty_value ns) (column_values c (fst st)) = []"
  shows "column_values c (fst (fold (fillMissing pf ns issues) cs st)) = column_values c (fst st) \<and>
         (\<exists>es. snd (fold (fillMissing pf ns issues) cs st) = snd st @ es \<and>
               (\<forall>e \<in> set es. \<forall>n. message e \<noteq> Filled_missing_values n c))"
  using assms
proof (induction cs arbitrary: st)
  case Nil
  then show ?case by simp
next
  case (Cons k cs)
  let ?st = "fillMissing pf ns issues k st"
  have col: "column_values c (fst ?st) = column_values c (fst st)"
    using Cons.prems by (cases "k = c") (simp_all add: fillMissing_column fill_column_def Let_def)
  with Cons.prems have "filter (nonEmpty_value ns) (column_values c (fst ?st)) = []" by simp
  from Cons.IH [OF this] obtain es where
    es: "column_values c (fst (fold (fillMissing pf ns issues) cs ?st)) = column_values c (fst ?st)"
        "snd (fold (fillMissing pf ns issues) cs ?st) = snd ?st @ es"
        "\<forall>e \<in> set es. \<forall>n. message e \<noteq> Filled_missing_values n c" by blast
  obtain es0 where es0: "snd ?st = snd st @ es0"
      "\<forall>e \<in> set es0. \<forall>n. message e \<noteq> Filled_missing_values n c"
    using Cons.prems by (cases "k = c") (auto simp: fillMissing_snd)
  have "snd (fold (fillMissing pf ns issues) (k # cs) st) = snd st @ (es0 @ es)"
    using es(2) es0(1) by simp
  moreover have "\<forall>e \<in> set (es0 @ es). \<forall>n. message e \<noteq> Filled_missing_values n c"
    using es(3) es0(2) by auto
  ultimately show ?case using es(1) col by (metis fold_simps(2))
qed

text \<open>
  C1 (amended). For every column flagged in the missing report that has no non-empty
  value when imputation starts (after deduplication, whitespace normalisation and
  zero padding), the Cleaner leaves every cell of that column as it is, so no cell
  becomes \<open>Unknown\<close>, and the log has no entry about filling that column.
\<close>

theorem empty_column_not_filled:
  assumes ne: "csvData \<noteq> []"
    and flagged: "column \<in> set (obj_keys (missing issues))"
    and empty: "filter (nonEmpty_value ns)
        (column_values column (fst (afterLeadingZeros ns issues headers csvData))) = []"
  shows "\<exists>cleaned log'.
     cleanData pf ns csvData headers (Some issues) = Some (cleaned, log') \<and>
     (\<forall>e \<in> set log'. \<forall>n. message e \<noteq> Filled_missing_values n column) \<and>
     (\<forall>i < length cleaned. \<forall>j < length headers. headers ! j = column \<longrightarrow>
        cleaned ! i ! j = obj_get (fst (afterLeadingZeros ns issues headers csvData) ! i) column \<and>
        cleaned ! i ! j \<noteq> Str ''Unknown'')"
proof -
  let ?before = "afterLeadingZeros ns issues headers csvData"
  let ?after = "afterMissing pf ns issues headers csvData"
  let ?cleaned = "map (\<lambda>row. map (\<lambda>header. obj_get row header) headers) (fst ?after)"
  from fold_fillMissing_skip [OF empty, of pf issues "obj_keys (missing issues)"]
  obtain es where es: "column_values column (fst ?after) = column_values column (fst ?before)"
    "snd ?after = snd ?before @ es"
    "\<forall>e \<in> set es. \<forall>n. message e \<noteq> Filled_missing_values n column"
    unfolding afterMissing_def by blast
  have log: "\<forall>e \<in> set (snd ?after @ [\<lparr> message = Data_cleaning_complete, type' = Success \<rparr>]).
      \<forall>n. message e \<noteq> Filled_missing_values n column"
    using es(2,3) by (auto simp: afterLeadingZeros_snd)
  have len: "length (fst ?after) = length (fst ?before)"
    by (simp add: afterMissing_length afterLeadingZeros_length)
  have cells: "\<forall>i < length ?cleaned. \<forall>j < length headers. headers ! j = column \<longrightarrow>
        ?cleaned ! i ! j = obj_get (fst ?before ! i) column \<and> ?cleaned ! i ! j \<noteq> Str ''Unknown''"
  proof (intro allI impI)
    fix i j assume i: "i < length ?cleaned" and j: "j < length headers" and c: "headers ! j = column"
    from i have i': "i < length (fst ?after)" by simp
    have "?cleaned ! i ! j = column_values column (fst ?after) ! i"
      using cleaned_cell [OF i' j] c by simp
    also have "\<dots> = obj_get (fst ?before ! i) column"
      using es(1) i' len by (simp add: column_values_nth)
    finally have eq: "?cleaned ! i ! j = obj_get (fst ?before ! i) column" .
    have "obj_get (fst ?before ! i) column \<in> set (column_values column (fst ?before))"
      using i' len by (metis column_values_length column_values_nth nth_mem)
    with empty have "\<not> nonEmpty_value ns (obj_get (fst ?before ! i) column)"
      by (simp add: filter_empty_conv)
    moreover have "nonEmpty_value ns (Str ''Unknown'')"
      by (simp add: nonEmpty_value_def trim_def js_space_def)
    ultimately have "obj_get (fst ?before ! i) column \<noteq> Str ''Unknown''" by auto
    with eq show "?cleaned ! i ! j = obj_get (fst ?before ! i) column \<and> ?cleaned ! i ! j \<noteq> Str ''Unknown''"
      by simp
  qed
  show ?thesis
    using cleanData_Some [OF ne, of pf ns headers issues] log cells by blast
qed

lemma afterMissing_column:
  assumes "distinct (obj_keys (missing issues))" "c \<in> set (obj_keys (missing issues))"
  shows "column_values c (fst (afterMissing pf ns issues headers csvData)) =
         fill_column pf ns (column_values c (fst (afterLeadingZeros ns issues headers csvData)))"
  unfolding afterMissing_def
  by (rule fold_column_once [where G = "fill_column pf ns", OF _ _ assms])
     (simp_all add: fillMissing_column)

lemma fillValue_numeric:
  "\<forall>v \<in> set vals. \<not> isNaN (pf (String_of ns v)) \<Longrightarrow>
   fillValue pf ns vals =
     Num (median (filter (\<lambda>val. \<not> isNaN val) (map (\<lambda>val. pf (String_of ns val)) vals)))"
  by (simp add: fillValue_def Let_def filter_map o_def)


lemma cleaned_filled_column:
  assumes ne: "csvData \<noteq> []"
    and dist: "distinct (obj_keys (missing issues))"
    and flagged: "column \<in> set (obj_keys (missing issues))"
    and vals: "nonEmptyValues = filter (nonEmpty_value ns)
        (column_values column (fst (afterLeadingZeros ns issues headers csvData)))"
    and some: "nonEmptyValues \<noteq> []"
  shows "\<exists>cleaned log'.
     cleanData pf ns csvData headers (Some issues) = Some (cleaned, log') \<and>
     length cleaned = length (fst (afterLeadingZeros ns issues headers csvData)) \<and>
     (\<forall>i < length cleaned. \<forall>j < length headers. headers ! j = column \<longrightarrow>
        cleaned ! i ! j =
          fill_cell ns (fillValue pf ns nonEmptyValues)
            (obj_get (fst (afterLeadingZeros ns issues headers csvData) ! i) column))"
proof -
  let ?before = "afterLeadingZeros ns issues headers csvData"
  let ?after = "afterMissing pf ns issues headers csvData"
  let ?cleaned = "map (\<lambda>row. map (\<lambda>header. obj_get row header) headers) (fst ?after)"
  have len: "length (fst ?after) = length (fst ?before)"
    by (simp add: afterMissing_length afterLeadingZeros_length)
  have col: "column_values column (fst ?after) =
      map (fill_cell ns (fillValue pf ns nonEmptyValues)) (column_values column (fst ?before))"
    using afterMissing_column [OF dist flagged, of pf ns headers csvData] vals some
    by (simp add: fill_column_def Let_def)
  have cells: "\<forall>i < length ?cleaned. \<forall>j < length headers. headers ! j = column \<longrightarrow>
        ?cleaned ! i ! j =
          fill_cell ns (fillValue pf ns nonEmptyValues) (obj_get (fst ?before ! i) column)"
  proof (intro allI impI)
    fix i j assume i: "i < length ?cleaned" and j: "j < length headers" and c: "headers ! j = column"
    from i have i': "i < length (fst ?after)" by simp
    have "?cleaned ! i ! j = column_values column (fst ?after) ! i"
      using cleaned_cell [OF i' j] c by simp
    also have "\<dots> = fill_cell ns (fillValue pf ns nonEmptyValues) (obj_get (fst ?before ! i) column)"
      using col i' len by (simp add: column_values_nth)
    finally show "?cleaned ! i ! j =
          fill_cell ns (fillValue pf ns nonEmptyValues) (obj_get (fst ?before ! i) column)" .
  qed
  have "length ?cleaned = length (fst ?before)" using len by simp
  with cleanData_Some [OF ne, of pf ns headers issues] cells show ?thesis by blast
qed


text \<open>
  C10. For every column flagged in the missing report that has at least one non-empty
  value when imputation starts, the imputation step rewrites every cell of that
  column: a cell that is not missing becomes its trimmed text, every other cell becomes
  the fill value, which is the numeric median when all non-empty values parse as
  numbers. Nothing is assumed of the whitespace report, so imputation alters cells
  that were not missing also in a column that report never flagged.
\<close>

theorem imputation_rewrites_column:
  assumes ne: "csvData \<noteq> []"
    and dist: "distinct (obj_keys (missing issues))"
    and flagged: "column \<in> set (obj_keys (missing issues))"
    and vals: "nonEmptyValues = filter (nonEmpty_value ns)
        (column_values column (fst (afterLeadingZeros ns issues headers csvData)))"
    and some: "nonEmptyValues \<noteq> []"
  shows "(\<exists>cleaned log'.
     cleanData pf ns csvData headers (Some issues) = Some (cleaned, log') \<and>
     length cleaned = length (fst (afterLeadingZeros ns issues headers csvData)) \<and>
     (\<forall>i < length cleaned. \<forall>j < length headers. headers ! j = column \<longrightarrow>
        cleaned ! i ! j =
          (if nonEmpty_value ns (obj_get (fst (afterLeadingZeros ns issues headers csvData) ! i) column)
           then Str (trim (toString ns
                  (obj_get (fst (afterLeadingZeros ns issues headers csvData) ! i) column)))
           else fillValue pf ns nonEmptyValues))) \<and>
     ((\<forall>v \<in> set nonEmptyValues. \<not> isNaN (pf (String_of ns v))) \<longrightarrow>
        fillValue pf ns nonEmptyValues =
          Num (median (filter (\<lambda>val. \<not> isNaN val)
                 (map (\<lambda>val. pf (String_of ns val)) nonEmptyValues))))"
  using cleaned_filled_column [OF ne dist flagged vals some, of pf] fillValue_numeric [of nonEmptyValues pf ns]
  by (simp add: fill_cell_def nonEmpty_value_def)

lemma dropWhile_same_length: "length (dropWhile P xs) = length xs \<Longrightarrow> dropWhile P xs = xs"
proof -
  assume l: "length (dropWhile P xs) = length xs"
  have "length (takeWhile P xs) + length (dropWhile P xs) = length xs"
    by (metis length_append takeWhile_dropWhile_id)
  with l have "takeWhile P xs = []" by simp
  then show ?thesis by (metis append_Nil takeWhile_dropWhile_id)
qed

lemma trim_tight: "trim x = [] \<or> (\<not> js_space (hd (trim x)) \<and> \<not> js_space (last (trim x)))"
proof (cases "trim x = []")
  case True
  then show ?thesis by simp
next
  case False
  define d where "d = dropWhile js_space x"
  define e where "e = dropWhile js_space (rev d)"
  have t: "trim x = rev e" by (simp add: trim_def d_def e_def)
  with False have e: "e \<noteq> []" by simp
  then have "\<not> js_space (hd e)" unfolding e_def by (rule hd_dropWhile)
  then have l: "\<not> js_space (last (trim x))" by (simp add: t last_rev)
  have "rev d = takeWhile js_space (rev d) @ e" by (simp add: e_def)
  then have "last (rev d) = last e" using e by (metis last_appendR)
  moreover have "d \<noteq> []" using e e_def by auto
  then have "\<not> js_space (hd d)" unfolding d_def by (rule hd_dropWhile)
  ultimately have "\<not> js_space (last e)" by (simp add: last_rev)
  then have "\<not> js_space (hd (trim x))" by (simp add: t hd_rev)
  with l show ?thesis by simp
qed

lemma tight_trim:
  assumes "s = [] \<or> (\<not> js_space (hd s) \<and> \<not> js_space (last s))"
  shows "trim s = s"
proof (cases "s = []")
  case True
  then show ?thesis by (simp add: trim_def)
next
  case False
  with assms have h: "\<not> js_space (hd s)" and l: "\<not> js_space (last s)" by auto
  have d: "dropWhile js_space s = s" using h by (simp add: dropWhile_eq_self_iff)
  have "dropWhile js_space (rev s) = rev s"
    using l by (simp add: dropWhile_eq_self_iff hd_rev)
  with d show ?thesis by (simp add: trim_def)
qed

lemma trim_fixed_tight:
  assumes "trim s = s"
  shows "s = [] \<or> (\<not> js_space (hd s) \<and> \<not> js_space (last s))"
  using trim_tight [of s] assms by simp

lemma trim_idem: "trim (trim s) = trim s"
  by (rule tight_trim) (rule trim_tight)

lemma zero_not_space: "\<not> js_space (CHR ''0'')"
  by (simp add: js_space_def)

lemma trim_padStart:
  assumes "trim s = s"
  shows "trim (padStart n (CHR ''0'') s) = padStart n (CHR ''0'') s"
proof (rule tight_trim)
  let ?p = "padStart n (CHR ''0'') s"
  from trim_fixed_tight [OF assms] have s: "s = [] \<or> (\<not> js_space (hd s) \<and> \<not> js_space (last s))" .
  show "?p = [] \<or> (\<not> js_space (hd ?p) \<and> \<not> js_space (last ?p))"
  proof (cases "?p = []")
    case True
    then show ?thesis by simp
  next
    case False
    have "\<not> js_space (hd ?p)"
    proof (cases "n - length s")
      case 0
      with False s show ?thesis by (auto simp: padStart_def)
    next
      case (Suc m)
      then show ?thesis by (simp add: padStart_def zero_not_space)
    qed
    moreover have "\<not> js_space (last ?p)"
    proof (cases "s = []")
      case True
      with False show ?thesis by (simp add: padStart_def zero_not_space)
    next
      case False
      with s show ?thesis by (simp add: padStart_def)
    qed
    ultimately show ?thesis by simp
  qed
qed

lemma length_padStart: "length (padStart n c s) = max n (length s)"
  by (simp add: padStart_def)

lemma foldr_max_ge: "x \<in> set xs \<Longrightarrow> x \<le> foldr max xs (0::nat)"
  by (induction xs) (auto simp: max_def)

lemma foldr_max_zero: "foldr max xs (0::nat) = 0 \<Longrightarrow> x \<in> set xs \<Longrightarrow> x = 0"
  using foldr_max_ge [of x xs] by simp

lemma uniqBy_from_subset: "set (uniqBy_from seen f xs) \<subseteq> set xs"
  by (induction xs arbitrary: seen) auto

lemma uniqBy_subset: "set (uniqBy xs f) \<subseteq> set xs"
  by (simp add: uniqBy_def uniqBy_from_subset)

lemma afterDuplicates_subset:
  "set (fst (afterDuplicates ns issues headers csvData)) \<subseteq> set (toObjectData headers csvData)"
  by (simp add: afterDuplicates_def removeDuplicates_fst uniqBy_subset)

lemma afterWhitespace_column_flagged:
  assumes "distinct (obj_keys (whitespace issues))" "c \<in> set (obj_keys (whitespace issues))"
  shows "column_values c (fst (afterWhitespace ns issues headers csvData)) =
         map (\<lambda>v. Str (trim (replace_nbsp (toString ns v))))
           (column_values c (fst (afterDuplicates ns issues headers csvData)))"
  unfolding afterWhitespace_def
  by (rule fold_column_once
        [where G = "map (\<lambda>v. Str (trim (replace_nbsp (toString ns v))))", OF _ _ assms])
     (simp_all add: fixWhitespace_column)

lemma afterWhitespace_column_unflagged:
  assumes "c \<notin> set (obj_keys (whitespace issues))"
  shows "column_values c (fst (afterWhitespace ns issues headers csvData)) =
         column_values c (fst (afterDuplicates ns issues headers csvData))"
  unfolding afterWhitespace_def
  by (rule fold_column_frame [OF _ assms]) (simp add: fixWhitespace_column)

lemma afterLeadingZeros_column_flagged:
  assumes "distinct (obj_keys (leadingZeros issues))" "c \<in> set (obj_keys (leadingZeros issues))"
  shows "column_values c (fst (afterLeadingZeros ns issues headers csvData)) =
         map (\<lambda>v. Str (pad_value ns
                (maxLength_of ns c (fst (afterWhitespace ns issues headers csvData))) v))
           (column_values c (fst (afterWhitespace ns issues headers csvData)))"
proof -
  let ?G = "\<lambda>col. map (\<lambda>v. Str (pad_value ns
      (foldr max (map (\<lambda>v. length (toString ns v)) col) 0) v)) col"
  have "column_values c (fst (afterLeadingZeros ns issues headers csvData)) =
        ?G (column_values c (fst (afterWhitespace ns issues headers csvData)))"
    unfolding afterLeadingZeros_def
    by (rule fold_column_once [where G = ?G, OF _ _ assms])
       (simp_all add: restoreLeadingZeros_column maxLength_of_column)
  then show ?thesis by (simp add: maxLength_of_column)
qed

lemma afterMissing_column_unflagged:
  assumes "c \<notin> set (obj_keys (missing issues))"
  shows "column_values c (fst (afterMissing pf ns issues headers csvData)) =
         column_values c (fst (afterLeadingZeros ns issues headers csvData))"
  unfolding afterMissing_def
  by (rule fold_column_frame [OF _ assms]) (simp add: fillMissing_column)

lemma toObject_defined:
  assumes "c \<in> set headers"
  shows "obj_get (toObject headers row) c \<noteq> Undefined"
proof -
  from toObject_get [OF assms, of row] obtain i where
    "obj_get (toObject headers row) c = or_empty (cell_at row i)" by blast
  moreover have "or_empty v \<noteq> Undefined" for v
    by (cases v) (simp_all add: or_empty_def)
  ultimately show ?thesis by simp
qed

lemma detect_whitespace_keys:
  "set (obj_keys (detect_whitespace ns headers od)) =
     {h \<in> set headers. list_ex (\<lambda>row. whitespace_value ns (obj_get row h)) od}"
  unfolding detect_whitespace_def Let_def
  using keys_fold_flag [of "\<lambda>h. list_ex (\<lambda>row. whitespace_value ns (obj_get row h)) od"
      "\<lambda>h. ''leading_or_trailing_space''" headers "[]"]
  by simp

lemma detect_leadingZeros_keys:
  "set (obj_keys (detect_leadingZeros ns headers od)) =
     {h \<in> set headers. list_ex (\<lambda>row. leadingZeros_value ns (obj_get row h)) od}"
  unfolding detect_leadingZeros_def Let_def
  using keys_fold_flag [of "\<lambda>h. list_ex (\<lambda>row. leadingZeros_value ns (obj_get row h)) od"
      "\<lambda>h. ''leading_zeros_lost''" headers "[]"]
  by simp

lemma detect_missing_keys:
  "set (obj_keys (detect_missing ns headers od)) =
     {h \<in> set headers. 0 < length (filter (\<lambda>row. missing_value ns (obj_get row h)) od)}"
  unfolding detect_missing_def Let_def
  using keys_fold_flag [of "\<lambda>h. 0 < length (filter (\<lambda>row. missing_value ns (obj_get row h)) od)"
      "\<lambda>h. length (filter (\<lambda>row. missing_value ns (obj_get row h)) od)" headers "[]"]
  by simp

lemma detect_distinct:
  "distinct (obj_keys (detect_whitespace ns headers od))"
  "distinct (obj_keys (detect_leadingZeros ns headers od))"
  "distinct (obj_keys (detect_missing ns headers od))"
  unfolding detect_whitespace_def detect_leadingZeros_def detect_missing_def Let_def
  by (rule distinct_fold_flag, simp)+

lemma fill_column_fixed:
  assumes "\<forall>v \<in> set col. \<exists>p. v = Str p \<and> trim p = p \<and> length p = M"
  shows "fill_column pf ns col = col"
proof (cases "M = 0")
  case True
  with assms have "\<forall>v \<in> set col. \<not> nonEmpty_value ns v"
    by (auto simp: nonEmpty_value_def)
  then have "filter (nonEmpty_value ns) col = []" by (simp add: filter_empty_conv)
  then show ?thesis by (simp add: fill_column_def)
next
  case False
  have "map (fill_cell ns fv) col = col" for fv
  proof (rule map_idI)
    fix v assume "v \<in> set col"
    with assms obtain p where "v = Str p" "trim p = p" "length p = M" by blast
    with False show "fill_cell ns fv v = v" by (auto simp: fill_cell_def)
  qed
  then show ?thesis by (simp add: fill_column_def Let_def)
qed

text \<open>
  C5 (amended). For every non-empty table, cleaned with the report that detection
  gives for it, and every column flagged in the leadingZeros report: after cleaning
  every value of that column is its text after deduplication and whitespace
  normalisation, left-padded with \<open>0\<close>, and its length is the maximum text length
  of that column after deduplication and whitespace normalisation.
\<close>

theorem leading_zeros_padded:
  assumes ne: "csvData \<noteq> []"
    and rep: "issues = detectIssues pf ns csvData headers"
    and flagged: "column \<in> set (obj_keys (leadingZeros issues))"
    and M: "M = maxLength_of ns column (fst (afterWhitespace ns issues headers csvData))"
  shows "\<exists>cleaned log'.
     cleanData pf ns csvData headers (Some issues) = Some (cleaned, log') \<and>
     length cleaned = length (fst (afterWhitespace ns issues headers csvData)) \<and>
     (\<forall>i < length cleaned. \<forall>j < length headers. headers ! j = column \<longrightarrow>
        cleaned ! i ! j =
          Str (padStart M (CHR ''0'')
                (toString ns (obj_get (fst (afterWhitespace ns issues headers csvData) ! i) column))) \<and>
        length (toString ns (cleaned ! i ! j)) = M)"
proof -
  let ?od = "toObjectData headers csvData"
  let ?st1 = "afterDuplicates ns issues headers csvData"
  let ?ws = "afterWhitespace ns issues headers csvData"
  let ?lz = "afterLeadingZeros ns issues headers csvData"
  let ?fin = "afterMissing pf ns issues headers csvData"
  let ?cleaned = "map (\<lambda>row. map (\<lambda>header. obj_get row header) headers) (fst ?fin)"
  have wsk: "whitespace issues = detect_whitespace ns headers ?od"
    and lzk: "leadingZeros issues = detect_leadingZeros ns headers ?od"
    and mk: "missing issues = detect_missing ns headers ?od"
    by (simp_all add: rep detectIssues_def Let_def)
  have hdr: "column \<in> set headers"
    using flagged by (simp add: lzk detect_leadingZeros_keys)
  have dws: "distinct (obj_keys (whitespace issues))"
    and dlz: "distinct (obj_keys (leadingZeros issues))"
    and dm: "distinct (obj_keys (missing issues))"
    by (simp_all add: wsk lzk mk detect_distinct)
  have st1: "\<forall>v \<in> set (column_values column (fst ?st1)).
      v \<noteq> Undefined \<and> (column \<notin> set (obj_keys (whitespace issues)) \<longrightarrow> trim (toString ns v) = toString ns v)"
  proof
    fix v assume "v \<in> set (column_values column (fst ?st1))"
    then obtain row where row: "row \<in> set (fst ?st1)" and v: "v = obj_get row column"
      by (auto simp: column_values_def)
    from row afterDuplicates_subset have rod: "row \<in> set ?od" by blast
    then obtain r where r: "row = toObject headers r" by (auto simp: toObjectData_def)
    have "v \<noteq> Undefined" using v r toObject_defined [OF hdr] by simp
    moreover have "trim (toString ns v) = toString ns v"
      if "column \<notin> set (obj_keys (whitespace issues))"
    proof -
      from that hdr have "\<not> list_ex (\<lambda>row. whitespace_value ns (obj_get row column)) ?od"
        by (simp add: wsk detect_whitespace_keys)
      with rod have "\<not> whitespace_value ns (obj_get row column)"
        by (auto simp: list_ex_iff)
      then show ?thesis by (simp add: whitespace_value_def Let_def v)
    qed
    ultimately show "v \<noteq> Undefined \<and>
      (column \<notin> set (obj_keys (whitespace issues)) \<longrightarrow> trim (toString ns v) = toString ns v)"
      by simp
  qed
  have ws: "\<forall>v \<in> set (column_values column (fst ?ws)).
      v \<noteq> Undefined \<and> trim (toString ns v) = toString ns v"
  proof (cases "column \<in> set (obj_keys (whitespace issues))")
    case True
    show ?thesis
      by (auto simp: afterWhitespace_column_flagged [OF dws True] trim_idem)
  next
    case False
    with st1 show ?thesis
      by (simp add: afterWhitespace_column_unflagged [OF False])
  qed
  have lz: "column_values column (fst ?lz) =
      map (\<lambda>v. Str (padStart M (CHR ''0'') (toString ns v))) (column_values column (fst ?ws))"
  proof -
    have "pad_value ns M v = padStart M (CHR ''0'') (toString ns v)"
      if "v \<in> set (column_values column (fst ?ws))" for v
      using ws that by (cases v) (auto simp: pad_value_def)
    then show ?thesis
      by (simp add: afterLeadingZeros_column_flagged [OF dlz flagged] M)
  qed
  have shape: "\<forall>v \<in> set (column_values column (fst ?lz)). \<exists>p. v = Str p \<and> trim p = p \<and> length p = M"
  proof
    fix v assume "v \<in> set (column_values column (fst ?lz))"
    with lz obtain w where w: "w \<in> set (column_values column (fst ?ws))"
      and v: "v = Str (padStart M (CHR ''0'') (toString ns w))" by auto
    from ws w have t: "trim (toString ns w) = toString ns w" by simp
    have "length (toString ns w) \<le> M"
      unfolding M maxLength_of_column using w by (intro foldr_max_ge) auto
    then have "length (padStart M (CHR ''0'') (toString ns w)) = M"
      by (simp add: length_padStart)
    with v trim_padStart [OF t, of M] show "\<exists>p. v = Str p \<and> trim p = p \<and> length p = M"
      by simp
  qed
  have fin: "column_values column (fst ?fin) = column_values column (fst ?lz)"
  proof (cases "column \<in> set (obj_keys (missing issues))")
    case True
    show ?thesis
      by (simp add: afterMissing_column [OF dm True] fill_column_fixed [OF shape])
  next
    case False
    then show ?thesis by (rule afterMissing_column_unflagged)
  qed
  have len: "length (fst ?fin) = length (fst ?ws)"
    by (simp add: afterMissing_length afterWhitespace_length)
  have cells: "\<forall>i < length ?cleaned. \<forall>j < length headers. headers ! j = column \<longrightarrow>
        ?cleaned ! i ! j =
          Str (padStart M (CHR ''0'') (toString ns (obj_get (fst ?ws ! i) column))) \<and>
        length (toString ns (?cleaned ! i ! j)) = M"
  proof (intro allI impI)
    fix i j assume i: "i < length ?cleaned" and j: "j < length headers" and c: "headers ! j = column"
    from i have i': "i < length (fst ?fin)" by simp
    have "?cleaned ! i ! j = column_values column (fst ?fin) ! i"
      using cleaned_cell [OF i' j] c by simp
    also have "\<dots> = Str (padStart M (CHR ''0'') (toString ns (obj_get (fst ?ws ! i) column)))"
      using fin lz i' len by (simp add: column_values_nth)
    finally have eq: "?cleaned ! i ! j =
        Str (padStart M (CHR ''0'') (toString ns (obj_get (fst ?ws ! i) column)))" .
    have "?cleaned ! i ! j \<in> set (column_values column (fst ?lz))"
      using cleaned_cell [OF i' j] c fin i' by (metis column_values_length nth_mem)
    with shape obtain p where "?cleaned ! i ! j = Str p" "length p = M" by blast
    then have "length (toString ns (?cleaned ! i ! j)) = M" by simp
    with eq show "?cleaned ! i ! j =
          Str (padStart M (CHR ''0'') (toString ns (obj_get (fst ?ws ! i) column))) \<and>
        length (toString ns (?cleaned ! i ! j)) = M" by simp
  qed
  have "length ?cleaned = length (fst ?ws)" using len by simp
  with cleanData_Some [OF ne, of pf ns headers issues] cells show ?thesis by blast
qed

lemma length_uniqBy_from_le: "length (uniqBy_from seen f xs) \<le> length xs"
  by (induction xs arbitrary: seen) (auto simp: le_SucI)

lemma length_uniqBy_le: "length (uniqBy xs f) \<le> length xs"
  by (simp add: uniqBy_def length_uniqBy_from_le)

lemma uniqBy_from_idem:
  "uniqBy_from seen f (uniqBy_from seen f xs) = uniqBy_from seen f xs"
  by (induction xs arbitrary: seen) auto

lemma uniqBy_idem: "uniqBy (uniqBy xs f) f = uniqBy xs f"
  by (simp add: uniqBy_def uniqBy_from_idem)

lemma or_empty_idem: "or_empty (or_empty v) = or_empty v"
  by (cases v) (simp_all add: or_empty_def)

lemma toObject_roundtrip:
  "toObject headers (map (\<lambda>header. obj_get (toObject headers r) header) headers) = toObject headers r"
proof (rule obj_eqI)
  let ?ob = "toObject headers r"
  let ?ob' = "toObject headers (map (\<lambda>header. obj_get ?ob header) headers)"
  show "obj_keys ?ob' = obj_keys ?ob" by (rule toObject_keys_cong)
  show "distinct (obj_keys ?ob')" by (rule toObject_distinct)
  fix k assume "k \<in> set (obj_keys ?ob')"
  then have k: "k \<in> set headers" by (simp add: toObject_keys)
  from toObject_get [OF k, of "map (\<lambda>header. obj_get ?ob header) headers"]
  obtain i where i: "i < length headers" "headers ! i = k"
    "obj_get ?ob' k = or_empty (cell_at (map (\<lambda>header. obj_get ?ob header) headers) i)" by blast
  from toObject_get [OF k, of r]
  obtain i' where "obj_get ?ob k = or_empty (cell_at r i')" by blast
  then have "or_empty (obj_get ?ob k) = obj_get ?ob k" by (simp add: or_empty_idem)
  with i have "obj_get ?ob' k = obj_get ?ob k" by (simp add: cell_at_def)
  moreover have "map_of ?ob' k = Some (obj_get ?ob' k)"
    using k by (intro obj_get_in_keys) (simp add: toObject_keys)
  moreover have "map_of ?ob k = Some (obj_get ?ob k)"
    using k by (intro obj_get_in_keys) (simp add: toObject_keys)
  ultimately show "map_of ?ob' k = map_of ?ob k" by simp
qed

lemma toObjectData_roundtrip:
  assumes "set U \<subseteq> set (toObjectData headers csvData)"
  shows "toObjectData headers (map (\<lambda>row. map (\<lambda>header. obj_get row header) headers) U) = U"
proof -
  have "toObject headers (map (\<lambda>header. obj_get row header) headers) = row" if "row \<in> set U" for row
  proof -
    from that assms obtain r where "row = toObject headers r"
      by (auto simp: toObjectData_def)
    then show ?thesis by (simp add: toObject_roundtrip)
  qed
  then show ?thesis by (simp add: toObjectData_def o_def map_idI)
qed

text \<open>
  C2 (amended). For every table whose issue report, as detection gives it, has
  \<open>duplicates = k\<close> with \<open>k > 0\<close>, the cleaned table has exactly the original
  row count minus \<open>k\<close> rows; and when that report flags no whitespace, no
  leadingZeros and no missing column, detection on the cleaned table reports
  \<open>duplicates = 0\<close>.
\<close>

theorem duplicates_removed:
  assumes rep: "issues = detectIssues pf ns csvData headers"
    and k: "duplicates issues = k"
    and pos: "0 < k"
  shows "\<exists>cleaned log'.
     cleanData pf ns csvData headers (Some issues) = Some (cleaned, log') \<and>
     length cleaned = length csvData - k \<and>
     (whitespace issues = [] \<and> leadingZeros issues = [] \<and> missing issues = [] \<longrightarrow>
        duplicates (detectIssues pf ns cleaned headers) = 0)"
proof -
  let ?od = "toObjectData headers csvData"
  let ?U = "uniqBy ?od (JSON_stringify ns)"
  let ?fin = "afterMissing pf ns issues headers csvData"
  let ?cleaned = "map (\<lambda>row. map (\<lambda>header. obj_get row header) headers) (fst ?fin)"
  have dk: "k = length ?od - length ?U"
    using k by (simp add: rep detectIssues_def Let_def)
  with pos have ne: "csvData \<noteq> []" by (auto simp: toObjectData_def)
  have st1: "fst (afterDuplicates ns issues headers csvData) = ?U"
    using k pos by (simp add: afterDuplicates_def removeDuplicates_fst)
  have "length ?cleaned = length ?U"
    by (simp add: afterMissing_length st1)
  moreover have "length ?U = length csvData - k"
    using dk length_uniqBy_le [of ?od "JSON_stringify ns"] by (simp add: toObjectData_def)
  ultimately have len: "length ?cleaned = length csvData - k" by simp
  have redetect: "duplicates (detectIssues pf ns ?cleaned headers) = 0"
    if "whitespace issues = [] \<and> leadingZeros issues = [] \<and> missing issues = []"
  proof -
    from that have "fst ?fin = ?U"
      by (simp add: afterMissing_def afterLeadingZeros_def afterWhitespace_def st1)
    then have "toObjectData headers ?cleaned = ?U"
      using toObjectData_roundtrip [OF uniqBy_subset, of headers csvData "JSON_stringify ns"]
      by simp
    then show ?thesis
      by (simp add: detectIssues_def Let_def uniqBy_idem)
  qed
  from cleanData_Some [OF ne, of pf ns headers issues] len redetect show ?thesis by blast
qed

lemma dup_detect:
  "detectIssues parseFloat Number_toString dup_table [''c''] =
     \<lparr> missing = [], duplicates = 1,
       whitespace = [(''c'', ''leading_or_trailing_space'')],
       leadingZeros = [], outliers = [], dataTypes = [],
       structure' = \<lparr> columns = 1, rowCount = 3, ragged = None, emptyRows = None \<rparr> \<rparr>"
  by code_simp

lemma dup_clean:
  "cleanData parseFloat Number_toString dup_table [''c'']
     (Some (detectIssues parseFloat Number_toString dup_table [''c''])) =
   Some ([[Str ''a''], [Str ''a'']],
         [\<lparr> message = Removed_duplicate_rows 1, type' = Success \<rparr>,
          \<lparr> message = Fixed_whitespace ''c'', type' = Success \<rparr>,
          \<lparr> message = Data_cleaning_complete, type' = Success \<rparr>])"
  unfolding dup_detect by code_simp

lemma dup_redetect:
  "duplicates (detectIssues parseFloat Number_toString [[Str ''a''], [Str ''a'']] [''c'']) = 1"
  by code_simp

subsection \<open>Ragged rows and the argument limit\<close>

lemma or_empty_cell_at_filled:
  "or_empty (cell_at (with_empty_cells headers row) i) = or_empty (cell_at row i)"
  by (simp add: with_empty_cells_def cell_at_def or_empty_def nth_append)

lemma toObject_filled: "toObject headers (with_empty_cells headers row) = toObject headers row"
  by (simp add: toObject_def or_empty_cell_at_filled)

lemma toObjectData_filled:
  "toObjectData headers (map (with_empty_cells headers) data) = toObjectData headers data"
  by (simp add: toObjectData_def toObject_filled)

lemma detectIssues_filled:
  "detectIssues pf ns (map (with_empty_cells headers) data) headers = detectIssues pf ns data headers"
  by (simp add: detectIssues_def toObjectData_filled)

lemma forEach_restoreLeadingZeros:
  "forEach_call (restoreLeadingZeros_call argLimit ns) cs st =
     (if cs \<noteq> [] \<and> argLimit < length (fst st) then Inl RangeError
      else Inr (fold (restoreLeadingZeros ns) cs st))"
  by (induction cs arbitrary: st)
     (auto simp: restoreLeadingZeros_call_def restoreLeadingZeros_length)

lemma cleanData_call_eq:
  "cleanData_call argLimit pf ns csvData headers (Some issues) =
     (if csvData \<noteq> [] \<and> leadingZeros issues \<noteq> [] \<and>
         argLimit < length (fst (afterDuplicates ns issues headers csvData))
      then Inl RangeError
      else Inr (cleanData pf ns csvData headers (Some issues)))"
  by (simp add: cleanData_call_def cleanData_def forEach_restoreLeadingZeros
      afterWhitespace_length afterMissing_def afterLeadingZeros_def Let_def)

lemma afterWhitespace_filled:
  "afterWhitespace ns issues headers (map (with_empty_cells headers) data) =
   afterWhitespace ns issues headers data"
  by (simp add: afterWhitespace_def afterDuplicates_def toObjectData_filled)

lemma cleanData_call_filled:
  "cleanData_call argLimit pf ns (map (with_empty_cells headers) data) headers issues' =
   cleanData_call argLimit pf ns data headers issues'"
  by (cases issues') (simp_all add: cleanData_call_def afterWhitespace_filled)

lemma afterDuplicates_length_le:
  "length (fst (afterDuplicates ns issues headers csvData)) \<le> length csvData"
  using length_uniqBy_le [of "toObjectData headers csvData" "JSON_stringify ns"]
  by (simp add: afterDuplicates_def removeDuplicates_fst toObjectData_def)

text \<open>
  C8. For every table with ragged rows (rows shorter than the header), detection and
  cleaning take each absent trailing cell as the empty string: the row object holds
  the empty string there, which counts in the missing-value count of its column, and
  the report and the call of \<open>cleanData\<close> are those of the table whose absent cells
  are written out as empty strings. Detection has no call that can fail. The call of
  \<open>cleanData\<close> throws exactly when the report has a leadingZeros column and the rows
  left by deduplication are more than the engine accepts as arguments of one call;
  so it returns on every table within that bound, and throws a \<open>RangeError\<close> on a
  larger one, which is where the claim that no error is ever raised fails.
\<close>

theorem ragged_rows:
  assumes row: "row \<in> set data" and i: "i < length headers" and short: "length row \<le> i"
  shows "obj_get (toObject headers row) (headers ! i) = Str [] \<and>
         detectIssues pf ns data headers =
           detectIssues pf ns (map (with_empty_cells headers) data) headers \<and>
         (\<exists>n. map_of (missing (detectIssues pf ns data headers)) (headers ! i) = Some n \<and>
              n = length (filter (\<lambda>r. missing_value ns (obj_get (toObject headers r) (headers ! i))) data) \<and>
              0 < n) \<and>
         cleanData_call argLimit pf ns data headers issues' =
           cleanData_call argLimit pf ns (map (with_empty_cells headers) data) headers issues' \<and>
         (cleanData_call argLimit pf ns data headers (Some issues) = Inl RangeError \<longleftrightarrow>
            leadingZeros issues \<noteq> [] \<and>
            argLimit < length (fst (afterDuplicates ns issues headers data))) \<and>
         (leadingZeros issues = [] \<or> length data \<le> argLimit \<longrightarrow>
            cleanData_call argLimit pf ns data headers (Some issues) =
              Inr (cleanData pf ns data headers (Some issues)) \<and>
            (\<exists>result. cleanData pf ns data headers (Some issues) = Some result))"
proof -
  let ?k = "headers ! i"
  have k: "?k \<in> set headers" using i by simp
  from toObject_get [OF k, of row] obtain j where
    j: "j < length headers" "headers ! j = ?k"
       "\<forall>j'. j < j' \<and> j' < length headers \<longrightarrow> headers ! j' \<noteq> ?k"
       "obj_get (toObject headers row) ?k = or_empty (cell_at row j)" by blast
  have "i \<le> j"
  proof (rule ccontr)
    assume "\<not> i \<le> j"
    then have "j < i" by simp
    with j(3) i show False by blast
  qed
  with short have "cell_at row j = Undefined" by (simp add: cell_at_def)
  with j(4) have empty: "obj_get (toObject headers row) ?k = Str []"
    by (simp add: or_empty_def)
  let ?P = "\<lambda>r. missing_value ns (obj_get (toObject headers r) ?k)"
  have "?P row" using empty by (simp add: missing_value_def)
  with row have "filter ?P data \<noteq> []" by (auto simp: filter_empty_conv)
  then have pos: "0 < length (filter ?P data)" by simp
  have count: "map_of (missing (detectIssues pf ns data headers)) ?k = Some (length (filter ?P data))"
    using pos k
    by (simp add: detectIssues_def Let_def detect_missing_map_of toObjectData_def filter_map o_def)
  have ne: "data \<noteq> []" using row by auto
  have raise: "cleanData_call argLimit pf ns data headers (Some issues) = Inl RangeError \<longleftrightarrow>
      leadingZeros issues \<noteq> [] \<and> argLimit < length (fst (afterDuplicates ns issues headers data))"
    using ne by (simp add: cleanData_call_eq)
  have ret: "cleanData_call argLimit pf ns data headers (Some issues) =
        Inr (cleanData pf ns data headers (Some issues)) \<and>
      (\<exists>result. cleanData pf ns data headers (Some issues) = Some result)"
    if "leadingZeros issues = [] \<or> length data \<le> argLimit"
  proof -
    from that afterDuplicates_length_le [of ns issues headers data]
    have "\<not> (leadingZeros issues \<noteq> [] \<and>
         argLimit < length (fst (afterDuplicates ns issues headers data)))"
      by auto
    then have "cleanData_call argLimit pf ns data headers (Some issues) =
        Inr (cleanData pf ns data headers (Some issues))"
      by (simp add: cleanData_call_eq)
    moreover have "\<exists>result. cleanData pf ns data headers (Some issues) = Some result"
      using ne by (simp add: cleanData_def Let_def)
    ultimately show ?thesis by simp
  qed
  from empty count pos raise ret detectIssues_filled [of pf ns headers data]
    cleanData_call_filled [of argLimit pf ns headers data issues']
  show ?thesis by (intro conjI impI) simp_all
qed

text \<open>
  The table of the example: 200000 rows of one cell under the headers \<open>z\<close> and \<open>w\<close>.
  Its rows are pairwise different, so deduplication keeps them all.
\<close>

lemma digits_below_ten:
  "\<forall>d \<in> set [0..<10]. digit_char (char_of (48 + d)) \<and>
      json_char (char_of (48 + d)) = [char_of (48 + d)] \<and> digit_val (char_of (48 + d)) = d"
  by code_simp

lemma digit_of:
  assumes "d < 10"
  shows "digit_char (char_of (48 + d))" "json_char (char_of (48 + d)) = [char_of (48 + d)]"
    "digit_val (char_of (48 + d)) = d"
  using digits_below_ten assms by (simp_all only: set_upt atLeastLessThan_iff Ball_def) auto

lemma show_nat_digits: "\<forall>c \<in> set (show_nat n). json_char c = [c]"
proof (induction n rule: show_nat.induct)
  case (1 n)
  show ?case
  proof (cases "n < 10")
    case True
    then show ?thesis using digit_of(2) [of n] by (simp add: show_nat.simps [of n])
  next
    case False
    have "n mod 10 < 10" by simp
    from digit_of(2) [OF this] 1 False show ?thesis by (simp add: show_nat.simps [of n])
  qed
qed

lemma dec_value_snoc: "dec_value (s @ [c]) = 10 * dec_value s + digit_val c"
  by (simp add: dec_value_def)

lemma dec_value_show_nat: "dec_value (show_nat n) = n"
proof (induction n rule: show_nat.induct)
  case (1 n)
  show ?case
  proof (cases "n < 10")
    case True
    then show ?thesis using digit_of(3) [of n] by (simp add: show_nat.simps [of n] dec_value_def)
  next
    case False
    have "n mod 10 < 10" by simp
    from digit_of(3) [OF this] 1 False show ?thesis
      by (simp add: show_nat.simps [of n] dec_value_snoc)
  qed
qed

lemma show_nat_inj: "show_nat m = show_nat n \<Longrightarrow> m = n"
  by (metis dec_value_show_nat)

lemma concat_json_char: "\<forall>c \<in> set s. json_char c = [c] \<Longrightarrow> concat (map json_char s) = s"
  by (induction s) simp_all

lemma ragged_row_object:
  "toObject [''z'', ''w''] [Str (c # s)] = [(''z'', Str (c # s)), (''w'', Str [])]"
  by code_simp

lemma ragged_row_json:
  assumes "\<forall>c \<in> set s. json_char c = [c]"
  shows "JSON_stringify ns [(''z'', Str s), (''w'', Str [])] =
     (''{'' @ json_quote ''z'' @ '':'' @ [CHR 0x22]) @ s
       @ ([CHR 0x22] @ '','' @ json_quote ''w'' @ '':'' @ json_quote [] @ ''}'')"
  using concat_json_char [OF assms]
  by (simp add: JSON_stringify_def List.map_filter_simps json_quote_def)

lemma ragged_objects:
  "toObjectData [''z'', ''w''] ragged_table =
     map (\<lambda>n. [(''z'', Str (CHR ''0'' # show_nat n)), (''w'', Str [])]) [0..<200000]"
  by (simp only: ragged_table_def toObjectData_def map_map o_def ragged_row_object)

lemma ragged_objects_distinct:
  "distinct (map (JSON_stringify ns) (toObjectData [''z'', ''w''] ragged_table))"
proof -
  let ?g = "\<lambda>n. JSON_stringify ns [(''z'', Str (CHR ''0'' # show_nat n)), (''w'', Str [])]"
  have zero: "json_char (CHR ''0'') = [CHR ''0'']" by code_simp
  have inj: "inj_on ?g (set [0..<200000])"
  proof (rule inj_onI)
    fix m n assume eq: "?g m = ?g n"
    have dig: "\<forall>c \<in> set (CHR ''0'' # show_nat k). json_char c = [c]" for k
      using show_nat_digits [of k] zero by simp
    from eq have "CHR ''0'' # show_nat m = CHR ''0'' # show_nat n"
      unfolding ragged_row_json [OF dig] by (simp only: same_append_eq append_same_eq)
    then show "m = n" by (simp add: show_nat_inj)
  qed
  have "distinct (map ?g [0..<200000])"
    using inj by (simp only: distinct_map distinct_upt simp_thms)
  then show ?thesis by (simp only: ragged_objects map_map o_def)
qed

lemma uniqBy_from_distinct:
  "distinct (map f xs) \<Longrightarrow> set seen \<inter> f ` set xs = {} \<Longrightarrow> uniqBy_from seen f xs = xs"
  by (induction xs arbitrary: seen) auto

lemma uniqBy_distinct: "distinct (map f xs) \<Longrightarrow> uniqBy xs f = xs"
  by (simp add: uniqBy_def uniqBy_from_distinct)

lemma ragged_length: "length ragged_table = 200000"
  by (simp only: ragged_table_def length_map length_upt diff_zero)

lemma ragged_first: "[Str ''00''] \<in> set ragged_table"
proof -
  have "show_nat 0 = ''0''" by code_simp
  then have "[Str ''00''] = (\<lambda>n. [Str (CHR ''0'' # show_nat n)]) 0" by simp
  moreover have "(0::nat) \<in> set [0..<200000]" by (simp only: set_upt atLeastLessThan_iff) simp
  ultimately show ?thesis
    unfolding ragged_table_def set_map by (rule image_eqI)
qed

lemma ragged_afterDuplicates:
  "length (fst (afterDuplicates ns issues [''z'', ''w''] ragged_table)) = 200000"
proof -
  have "fst (afterDuplicates ns issues [''z'', ''w''] ragged_table) =
      toObjectData [''z'', ''w''] ragged_table"
    by (simp add: afterDuplicates_def removeDuplicates_fst
        uniqBy_distinct [OF ragged_objects_distinct])
  then show ?thesis by (simp only: toObjectData_def length_map ragged_length)
qed

lemma ragged_leadingZeros:
  "leadingZeros (detectIssues pf Number_toString ragged_table [''z'', ''w'']) \<noteq> []"
proof -
  let ?od = "toObjectData [''z'', ''w''] ragged_table"
  have "toObject [''z'', ''w''] [Str ''00''] \<in> set ?od"
    using ragged_first by (simp only: toObjectData_def set_map) (rule imageI)
  moreover have "leadingZeros_value Number_toString
      (obj_get (toObject [''z'', ''w''] [Str ''00'']) ''z'')"
    by code_simp
  ultimately have "list_ex (\<lambda>row. leadingZeros_value Number_toString (obj_get row ''z'')) ?od"
    unfolding list_ex_iff by (rule bexI [rotated])
  then have "''z'' \<in> set (obj_keys (detect_leadingZeros Number_toString [''z'', ''w''] ?od))"
    by (simp add: detect_leadingZeros_keys)
  then have "''z'' \<in> set (obj_keys (leadingZeros
      (detectIssues pf Number_toString ragged_table [''z'', ''w''])))"
    by (simp add: detectIssues_def Let_def)
  then show ?thesis by auto
qed

lemma ragged_missing:
  "length (filter (\<lambda>r. missing_value ns (obj_get (toObject [''z'', ''w''] r) ''w'')) ragged_table)
     = 200000"
proof -
  have "missing_value ns (obj_get (toObject [''z'', ''w''] r) ''w'')" if "r \<in> set ragged_table" for r
  proof -
    from that obtain n where "r = [Str (CHR ''0'' # show_nat n)]"
      unfolding ragged_table_def set_map by blast
    then show ?thesis
      by (simp add: ragged_row_object obj_get_def missing_value_def)
  qed
  then have "\<forall>r \<in> set ragged_table. missing_value ns (obj_get (toObject [''z'', ''w''] r) ''w'')"
    by blast
  then have "filter (\<lambda>r. missing_value ns (obj_get (toObject [''z'', ''w''] r) ''w'')) ragged_table
      = ragged_table"
    by (rule filter_True)
  then show ?thesis by (simp only: ragged_length)
qed

text \<open>
  C8 at this table, for an engine that accepts 130000 arguments: the row \<open>00\<close> is
  ragged, column \<open>w\<close> has all its 200000 cells missing, and the call of \<open>cleanData\<close>
  with the report that detection gives throws a \<open>RangeError\<close> in the leading-zeros
  step.
\<close>

theorem ragged_rows_witness:
  "[Str ''00''] \<in> set ragged_table \<and> (1::nat) < length [''z'', ''w''] \<and>
   length [Str ''00''] \<le> (1::nat) \<and> length ragged_table = 200000 \<and>
   obj_get (toObject [''z'', ''w''] [Str ''00'']) ([''z'', ''w''] ! 1) = Str [] \<and>
   map_of (missing (detectIssues parseFloat Number_toString ragged_table [''z'', ''w'']))
     ([''z'', ''w''] ! 1) = Some 200000 \<and>
   leadingZeros (detectIssues parseFloat Number_toString ragged_table [''z'', ''w'']) \<noteq> [] \<and>
   (130000::nat) < length (fst (afterDuplicates Number_toString
      (detectIssues parseFloat Number_toString ragged_table [''z'', ''w''])
      [''z'', ''w''] ragged_table)) \<and>
   cleanData_call 130000 parseFloat Number_toString ragged_table [''z'', ''w'']
     (Some (detectIssues parseFloat Number_toString ragged_table [''z'', ''w''])) =
     Inl RangeError"
proof -
  let ?D = "detectIssues parseFloat Number_toString ragged_table [''z'', ''w'']"
  have h1: "[Str ''00''] \<in> set ragged_table" by (rule ragged_first)
  have h2: "(1::nat) < length [''z'', ''w'']" by simp
  have h3: "length [Str ''00''] \<le> (1::nat)" by simp
  have w: "[''z'', ''w''] ! 1 = ''w''" by simp
  have lz: "leadingZeros ?D \<noteq> []" by (rule ragged_leadingZeros)
  have big: "(130000::nat) < length (fst (afterDuplicates Number_toString ?D [''z'', ''w''] ragged_table))"
    by (simp only: ragged_afterDuplicates)
  from ragged_rows [OF h1 h2 h3, of parseFloat Number_toString 130000 "Some ?D" ?D]
  have e: "obj_get (toObject [''z'', ''w''] [Str ''00'']) ([''z'', ''w''] ! 1) = Str []"
    and c: "\<exists>n. map_of (missing ?D) ([''z'', ''w''] ! 1) = Some n \<and>
              n = length (filter (\<lambda>r. missing_value Number_toString
                    (obj_get (toObject [''z'', ''w''] r) ([''z'', ''w''] ! 1))) ragged_table) \<and> 0 < n"
    and r: "cleanData_call 130000 parseFloat Number_toString ragged_table [''z'', ''w''] (Some ?D)
              = Inl RangeError \<longleftrightarrow>
            leadingZeros ?D \<noteq> [] \<and>
            130000 < length (fst (afterDuplicates Number_toString ?D [''z'', ''w''] ragged_table))"
    by blast+
  from c have m: "map_of (missing ?D) ([''z'', ''w''] ! 1) = Some 200000"
    unfolding w by (simp only: ragged_missing) blast
  from r lz big have x: "cleanData_call 130000 parseFloat Number_toString ragged_table [''z'', ''w'']
      (Some ?D) = Inl RangeError"
    by blast
  from h1 h2 h3 ragged_length e m lz big x show ?thesis by (intro conjI)
qed

subsection \<open>The store\<close>

lemma alloc_all_eq: "alloc_all s vs = (s @ vs, [length s ..< length s + length vs])"
proof (induction vs arbitrary: s)
  case Nil
  then show ?case by simp
next
  case (Cons v vs)
  have "[length s ..< length s + length (v # vs)] = length s # [Suc (length s) ..< Suc (length s) + length vs]"
    using upt_conv_Cons [of "length s" "length s + length (v # vs)"] by simp
  then show ?case by (simp add: alloc_def Cons.IH)
qed

lemma fold_push:
  "lg < length s \<Longrightarrow> s ! lg = Entries es \<Longrightarrow>
   fold (\<lambda>e s. push s lg e) xs s = s[lg := Entries (es @ xs)]"
proof (induction xs arbitrary: s es)
  case Nil
  then show ?case by (metis append_Nil2 fold_simps(1) list_update_id)
next
  case (Cons x xs)
  have p: "push s lg x = s[lg := Entries (es @ [x])]"
    using Cons.prems by (simp add: push_def)
  have "fold (\<lambda>e s. push s lg e) xs (s[lg := Entries (es @ [x])]) =
        (s[lg := Entries (es @ [x])])[lg := Entries ((es @ [x]) @ xs)]"
    using Cons.prems by (intro Cons.IH) simp_all
  with p show ?case by simp
qed

lemma cells_at_append: "r < length s \<Longrightarrow> cells_at (s @ xs) r = cells_at s r"
  by (simp add: cells_at_def nth_append)

lemma cleanData_store_eq:
  assumes "rows_at s csvData \<noteq> []"
    and rs0_def: "rs0 = rows_at s csvData"
    and st_def: "st = afterMissing pf ns issues headers (map (cells_at (s @ [Rows rs0, Entries []])) rs0)"
  shows "cleanData_store pf ns s csvData headers (Some issues) =
     (s @ [Rows rs0,
           Entries (snd st @ [\<lparr> message = Data_cleaning_complete, type' = Success \<rparr>])]
        @ map (\<lambda>row. Cells (map (\<lambda>header. obj_get row header) headers)) (fst st)
        @ [Rows [length s + 2 ..< length s + 2 + length (fst st)]],
      Some (length s + 2 + length (fst st), Suc (length s)))"
proof -
  let ?s2 = "s @ [Rows rs0, Entries []]"
  let ?lg = "Suc (length s)"
  have t: "table_at ?s2 (length s) = map (cells_at ?s2) rs0"
    by (simp add: table_at_def rows_at_def nth_append)
  have s3: "fold (\<lambda>e s. push s ?lg e) (snd st) ?s2 = s @ [Rows rs0, Entries (snd st)]"
    using fold_push [of ?lg ?s2 "[]" "snd st"] by (simp add: nth_append list_update_append)
  let ?cells = "map (\<lambda>row. Cells (map (\<lambda>header. obj_get row header) headers)) (fst st)"
  let ?s5 = "s @ [Rows rs0, Entries (snd st)] @ ?cells
               @ [Rows [length s + 2 ..< length s + 2 + length (fst st)]]"
  have fin: "push ?s5 ?lg \<lparr> message = Data_cleaning_complete, type' = Success \<rparr> =
      s @ [Rows rs0, Entries (snd st @ [\<lparr> message = Data_cleaning_complete, type' = Success \<rparr>])]
        @ ?cells @ [Rows [length s + 2 ..< length s + 2 + length (fst st)]]"
    by (simp add: push_def nth_append list_update_append)
  show ?thesis
    using assms(1) fin
    by (simp add: cleanData_store_def alloc_def Let_def t s3 alloc_all_eq
        rs0_def [symmetric] st_def [symmetric])
qed

lemma nth_after_two: "(s @ [a, b] @ cs) ! (length s + 2 + i) = cs ! i"
  by (simp add: nth_append)

lemma length_upt_add: "length [a ..< a + n] = n"
  by simp

lemma nth_upt_add: "i < n \<Longrightarrow> [a ..< a + n] ! i = a + i"
  by simp

lemma set_upt_add_ge: "r \<in> set [a + b ..< a + b + n] \<Longrightarrow> a \<le> r"
  by simp

text \<open>
  C9. For every table and issue report, running the Cleaner leaves the input table
  unchanged. Every array that was in the store before the call has the same content
  after it, so the table read through the reference \<open>csvData\<close> has the same rows and
  cells; the cleaned table and each of its rows are arrays allocated by the call, as
  is the log; and the cleaned table and the log read from the new store are what
  \<open>cleanData\<close> computes from the table read from the old one. (A row reference of a
  table points into the store, which the second hypothesis says.)
\<close>

theorem input_table_unchanged:
  assumes run: "cleanData_store pf ns s csvData headers issues' = (s', res)"
    and wf: "\<forall>r \<in> set (rows_at s csvData). r < length s"
  shows "take (length s) s' = s \<and>
         table_at s' csvData = table_at s csvData \<and>
         (\<forall>out lg. res = Some (out, lg) \<longrightarrow>
            length s \<le> out \<and> (\<forall>r \<in> set (rows_at s' out). length s \<le> r) \<and> length s \<le> lg \<and>
            cleanData pf ns (table_at s csvData) headers issues' =
              Some (table_at s' out, entries_at s' lg)) \<and>
         (res = None \<longrightarrow> s' = s \<and> cleanData pf ns (table_at s csvData) headers issues' = None)"
proof (cases issues')
  case None
  with run show ?thesis by (simp add: cleanData_store_def cleanData_def)
next
  case (Some issues)
  show ?thesis
  proof (cases "rows_at s csvData = []")
    case True
    with run Some show ?thesis
      by (simp add: cleanData_store_def cleanData_def table_at_def)
  next
    case False
    define rs0 where "rs0 = rows_at s csvData"
    define st where "st = afterMissing pf ns issues headers (map (cells_at (s @ [Rows rs0, Entries []])) rs0)"
    define n where "n = length (fst st)"
    let ?final = "\<lparr> message = Data_cleaning_complete, type' = Success \<rparr>"
    let ?cells = "map (\<lambda>row. Cells (map (\<lambda>header. obj_get row header) headers)) (fst st)"
    from cleanData_store_eq [OF False rs0_def st_def] run Some
    have s': "s' = s @ [Rows rs0, Entries (snd st @ [?final])] @ ?cells
                @ [Rows [length s + 2 ..< length s + 2 + n]]"
      and res: "res = Some (length s + 2 + n, Suc (length s))"
      by (simp_all add: n_def)
    have tab: "map (cells_at (s @ [Rows rs0, Entries []])) rs0 = table_at s csvData"
      using wf by (simp add: table_at_def rs0_def cells_at_append)
    have ne: "table_at s csvData \<noteq> []" using False by (simp add: table_at_def)
    have pure: "cleanData pf ns (table_at s csvData) headers issues' =
        Some (map (\<lambda>row. map (\<lambda>header. obj_get row header) headers) (fst st), snd st @ [?final])"
      using cleanData_Some [OF ne, of pf ns headers issues] by (simp add: Some st_def tab)
    have frame: "take (length s) s' = s" by (simp add: s')
    have csv: "csvData < length s"
      using False by (auto simp: rows_at_def split: if_splits)
    have rows_csv: "rows_at s' csvData = rs0"
      using csv by (simp add: rows_at_def s' nth_append rs0_def)
    have "cells_at s' r = cells_at s r" if "r \<in> set rs0" for r
      using that wf by (simp add: s' rs0_def cells_at_append)
    then have same: "table_at s' csvData = table_at s csvData"
      by (simp add: table_at_def rows_csv rs0_def [symmetric])
    define out where "out = length s + 2 + n"
    have len': "out < length s'" by (simp add: s' n_def out_def)
    have out: "s' ! out = Rows [length s + 2 ..< length s + 2 + n]"
    proof -
      have "s' ! (length s + 2 + n) = (?cells @ [Rows [length s + 2 ..< length s + 2 + n]]) ! n"
        unfolding s' by (rule nth_after_two)
      then show ?thesis by (simp add: nth_append n_def out_def)
    qed
    have rows_out: "rows_at s' out = [length s + 2 ..< length s + 2 + n]"
      using out len' by (simp add: rows_at_def)
    have cell: "cells_at s' (length s + 2 + i) = map (\<lambda>header. obj_get (fst st ! i) header) headers"
      if "i < n" for i
    proof -
      have "s' ! (length s + 2 + i) = (?cells @ [Rows [length s + 2 ..< length s + 2 + n]]) ! i"
        unfolding s' by (rule nth_after_two)
      with that have "s' ! (length s + 2 + i) = Cells (map (\<lambda>header. obj_get (fst st ! i) header) headers)"
        by (simp add: nth_append n_def)
      moreover have "length s + 2 + i < length s'" using that len' by (simp add: out_def)
      ultimately show ?thesis by (simp add: cells_at_def)
    qed
    have tab_out: "table_at s' out =
        map (\<lambda>row. map (\<lambda>header. obj_get row header) headers) (fst st)"
    proof (rule nth_equalityI)
      show "length (table_at s' out) =
            length (map (\<lambda>row. map (\<lambda>header. obj_get row header) headers) (fst st))"
        by (simp only: table_at_def rows_out length_map length_upt_add n_def)
    next
      fix i assume "i < length (table_at s' out)"
      then have i: "i < n" by (simp only: table_at_def rows_out length_map length_upt_add)
      have "i < length [length s + 2 ..< length s + 2 + n]"
        using i by (simp only: length_upt_add)
      then have "table_at s' out ! i = cells_at s' ([length s + 2 ..< length s + 2 + n] ! i)"
        by (simp only: table_at_def rows_out nth_map)
      also have "[length s + 2 ..< length s + 2 + n] ! i = length s + 2 + i"
        using i by (rule nth_upt_add)
      finally show "table_at s' out ! i =
            map (\<lambda>row. map (\<lambda>header. obj_get row header) headers) (fst st) ! i"
        using cell [OF i] i by (simp add: n_def)
    qed
    have ent: "entries_at s' (Suc (length s)) = snd st @ [?final]"
      by (simp add: entries_at_def s' nth_append)
    have fresh: "\<forall>r \<in> set (rows_at s' out). length s \<le> r"
      unfolding rows_out using set_upt_add_ge by blast
    have res': "res = Some (out, Suc (length s))" using res by (simp add: out_def)
    have "length s \<le> out" by (simp add: out_def)
    with frame same res' pure tab_out ent fresh show ?thesis by simp
  qed
qed

subsection \<open>Examples\<close>

text \<open>
  Instances of the theorems above at concrete tables, and tables at which the
  statements fail without their amendments. Where a report is the one that detection
  computes, it is evaluated first.
\<close>

lemma empty_detect:
  "detectIssues parseFloat Number_toString empty_table [''a'', ''b''] =
     \<lparr> missing = [(''b'', 1)], duplicates = 0, whitespace = [], leadingZeros = [],
       outliers = [], dataTypes = [],
       structure' = \<lparr> columns = 2, rowCount = 1, ragged = None, emptyRows = None \<rparr> \<rparr>"
  by code_simp

lemma empty_before:
  "afterLeadingZeros Number_toString
     (detectIssues parseFloat Number_toString empty_table [''a'', ''b'']) [''a'', ''b''] empty_table =
   ([[(''a'', Str ''x''), (''b'', Str '''')]], [])"
  unfolding empty_detect by code_simp

text \<open>
  C1 as first stated fails here: column \<open>b\<close> is flagged missing and has no non-empty
  value, yet its cell stays the empty string, not \<open>Unknown\<close>, and the log has no
  entry but the last one.
\<close>

theorem empty_column_counterexample:
  "map_of (missing (detectIssues parseFloat Number_toString empty_table [''a'', ''b''])) ''b'' = Some 1 \<and>
   empty_table = [[Str ''x'', Str '''']] \<and>
   cleanData parseFloat Number_toString empty_table [''a'', ''b'']
     (Some (detectIssues parseFloat Number_toString empty_table [''a'', ''b''])) =
   Some ([[Str ''x'', Str '''']], [\<lparr> message = Data_cleaning_complete, type' = Success \<rparr>]) \<and>
   Str '''' \<noteq> Str ''Unknown''"
  unfolding empty_detect by code_simp

theorem empty_column_not_filled_witness:
  "empty_table \<noteq> [] \<and>
   ''b'' \<in> set (obj_keys (missing (detectIssues parseFloat Number_toString empty_table [''a'', ''b'']))) \<and>
   filter (nonEmpty_value Number_toString)
     (column_values ''b'' (fst (afterLeadingZeros Number_toString
        (detectIssues parseFloat Number_toString empty_table [''a'', ''b''])
        [''a'', ''b''] empty_table))) = [] \<and>
   (\<exists>cleaned log'.
     cleanData parseFloat Number_toString empty_table [''a'', ''b'']
       (Some (detectIssues parseFloat Number_toString empty_table [''a'', ''b''])) =
       Some (cleaned, log') \<and>
     (\<forall>e \<in> set log'. \<forall>n. message e \<noteq> Filled_missing_values n ''b'') \<and>
     (\<forall>i < length cleaned. \<forall>j < length [''a'', ''b'']. [''a'', ''b''] ! j = ''b'' \<longrightarrow>
        cleaned ! i ! j \<noteq> Str ''Unknown''))"
proof -
  let ?D = "detectIssues parseFloat Number_toString empty_table [''a'', ''b'']"
  have h1: "empty_table \<noteq> []" by (simp add: empty_table_def)
  have h2: "''b'' \<in> set (obj_keys (missing ?D))"
    by (simp add: empty_detect)
  have h3: "filter (nonEmpty_value Number_toString)
     (column_values ''b'' (fst (afterLeadingZeros Number_toString ?D [''a'', ''b''] empty_table))) = []"
    by (simp add: empty_before column_values_def obj_get_def nonEmpty_value_def)
  from empty_column_not_filled [OF h1 h2 h3, of parseFloat]
  show ?thesis using h1 h2 h3 by blast
qed

lemma clean_detect:
  "detectIssues parseFloat Number_toString clean_table [''a''] =
     \<lparr> missing = [], duplicates = 0, whitespace = [], leadingZeros = [],
       outliers = [], dataTypes = [],
       structure' = \<lparr> columns = 1, rowCount = 1, ragged = None, emptyRows = None \<rparr> \<rparr>"
  by code_simp

text \<open>
  C3 as first stated fails here: the report has no issue, and the log is not empty: it
  holds the completion entry, whose severity is \<open>success\<close>, not \<open>info\<close>.
\<close>

theorem no_issue_log_counterexample:
  "detectIssues parseFloat Number_toString clean_table [''a''] =
     \<lparr> missing = [], duplicates = 0, whitespace = [], leadingZeros = [],
       outliers = [], dataTypes = [],
       structure' = \<lparr> columns = 1, rowCount = 1, ragged = None, emptyRows = None \<rparr> \<rparr> \<and>
   cleanData parseFloat Number_toString clean_table [''a'']
     (Some (detectIssues parseFloat Number_toString clean_table [''a''])) =
   Some ([[Str ''x'']], [\<lparr> message = Data_cleaning_complete, type' = Success \<rparr>]) \<and>
   [\<lparr> message = Data_cleaning_complete, type' = Success \<rparr>] \<noteq> [] \<and>
   type' (last [\<lparr> message = Data_cleaning_complete, type' = Success \<rparr>]) \<noteq> Info"
  unfolding clean_detect by code_simp

lemma scenario_detect:
  "detectIssues parseFloat Number_toString scenario_table [''id'', ''val''] =
     \<lparr> missing = [(''val'', 1)], duplicates = 1,
       whitespace = [(''id'', ''leading_or_trailing_space'')], leadingZeros = [],
       outliers = [], dataTypes = [],
       structure' = \<lparr> columns = 2, rowCount = 4, ragged = None, emptyRows = None \<rparr> \<rparr>"
  by code_simp

lemma scenario_clean:
  "cleanData parseFloat Number_toString scenario_table [''id'', ''val'']
     (Some (detectIssues parseFloat Number_toString scenario_table [''id'', ''val''])) =
   Some ([[Str ''1'', Str ''10''], [Str ''2'', Num (Fin 20)], [Str ''3'', Str ''30'']],
     [\<lparr> message = Removed_duplicate_rows 1, type' = Success \<rparr>,
      \<lparr> message = Fixed_whitespace ''id'', type' = Success \<rparr>,
      \<lparr> message = Filled_missing_values (Some 1) ''val'', type' = Success \<rparr>,
      \<lparr> message = Data_cleaning_complete, type' = Success \<rparr>])"
  unfolding scenario_detect by code_simp


theorem cleaning_log_shape_witness:
  "scenario_table \<noteq> [] \<and>
   cleanData parseFloat Number_toString scenario_table [''id'', ''val'']
     (Some (detectIssues parseFloat Number_toString scenario_table [''id'', ''val''])) =
   Some ([[Str ''1'', Str ''10''], [Str ''2'', Num (Fin 20)], [Str ''3'', Str ''30'']],
     [\<lparr> message = Removed_duplicate_rows 1, type' = Success \<rparr>]
     @ map (\<lambda>c. \<lparr> message = Fixed_whitespace c, type' = Success \<rparr>) [''id'']
     @ map (\<lambda>c. \<lparr> message = Restored_leading_zeros c, type' = Success \<rparr>) []
     @ map (\<lambda>c. \<lparr> message = Filled_missing_values (Some 1) c, type' = Success \<rparr>) [''val'']
     @ [\<lparr> message = Data_cleaning_complete, type' = Success \<rparr>])"
proof -
  have h: "scenario_table \<noteq> []" by (simp add: scenario_table_def)
  from cleaning_log_shape [OF h, of parseFloat Number_toString "[''id'', ''val'']"
      "detectIssues parseFloat Number_toString scenario_table [''id'', ''val'']"]
  show ?thesis using h by (simp add: scenario_clean)
qed




lemma zeros_detect:
  "detectIssues parseFloat Number_toString zeros_table [''z''] =
     \<lparr> missing = [], duplicates = 0, whitespace = [(''z'', ''leading_or_trailing_space'')],
       leadingZeros = [(''z'', ''leading_zeros_lost'')],
       outliers = [], dataTypes = [],
       structure' = \<lparr> columns = 1, rowCount = 2, ragged = None, emptyRows = None \<rparr> \<rparr>"
  by code_simp

text \<open>
  C5 as first stated fails here: the longest text of column \<open>z\<close> before cleaning has
  6 code units, and both cleaned values have 4.
\<close>

theorem leading_zeros_counterexample:
  "map_of (leadingZeros (detectIssues parseFloat Number_toString zeros_table [''z''])) ''z''
     = Some ''leading_zeros_lost'' \<and>
   zeros_table = [[Str ''007''], [Str '' abcd '']] \<and>
   max (length ''007'') (length '' abcd '') = 6 \<and>
   cleanData parseFloat Number_toString zeros_table [''z'']
     (Some (detectIssues parseFloat Number_toString zeros_table [''z''])) =
   Some ([[Str ''0007''], [Str ''abcd'']],
     [\<lparr> message = Fixed_whitespace ''z'', type' = Success \<rparr>,
      \<lparr> message = Restored_leading_zeros ''z'', type' = Success \<rparr>,
      \<lparr> message = Data_cleaning_complete, type' = Success \<rparr>]) \<and>
   length ''0007'' \<noteq> 6"
  unfolding zeros_detect by code_simp

lemma zip_detect:
  "detectIssues parseFloat Number_toString zip_table [''z''] =
     \<lparr> missing = [], duplicates = 0, whitespace = [],
       leadingZeros = [(''z'', ''leading_zeros_lost'')],
       outliers = [], dataTypes = [],
       structure' = \<lparr> columns = 1, rowCount = 3, ragged = None, emptyRows = None \<rparr> \<rparr>"
  by code_simp

lemma zip_whitespace:
  "afterWhitespace Number_toString (detectIssues parseFloat Number_toString zip_table [''z''])
     [''z''] zip_table =
   ([[(''z'', Str ''007'')], [(''z'', Str ''012'')], [(''z'', Str ''5'')]], [])"
  unfolding zip_detect by code_simp

lemma zip_clean:
  "cleanData parseFloat Number_toString zip_table [''z'']
     (Some (detectIssues parseFloat Number_toString zip_table [''z''])) =
   Some ([[Str ''007''], [Str ''012''], [Str ''005'']],
     [\<lparr> message = Restored_leading_zeros ''z'', type' = Success \<rparr>,
      \<lparr> message = Data_cleaning_complete, type' = Success \<rparr>])"
  unfolding zip_detect by code_simp

theorem leading_zeros_padded_witness:
  "zip_table \<noteq> [] \<and>
   ''z'' \<in> set (obj_keys (leadingZeros (detectIssues parseFloat Number_toString zip_table [''z'']))) \<and>
   (3::nat) = maxLength_of Number_toString ''z''
      (fst (afterWhitespace Number_toString
         (detectIssues parseFloat Number_toString zip_table [''z'']) [''z''] zip_table)) \<and>
   cleanData parseFloat Number_toString zip_table [''z'']
     (Some (detectIssues parseFloat Number_toString zip_table [''z''])) =
   Some ([[Str ''007''], [Str ''012''], [Str ''005'']],
     [\<lparr> message = Restored_leading_zeros ''z'', type' = Success \<rparr>,
      \<lparr> message = Data_cleaning_complete, type' = Success \<rparr>]) \<and>
   (\<exists>cleaned log'.
      cleanData parseFloat Number_toString zip_table [''z'']
        (Some (detectIssues parseFloat Number_toString zip_table [''z''])) = Some (cleaned, log') \<and>
      (\<forall>i < length cleaned. \<forall>j < length [''z'']. [''z''] ! j = ''z'' \<longrightarrow>
         length (toString Number_toString (cleaned ! i ! j)) = 3))"
proof -
  let ?D = "detectIssues parseFloat Number_toString zip_table [''z'']"
  have h1: "zip_table \<noteq> []" by (simp add: zip_table_def)
  have h3: "''z'' \<in> set (obj_keys (leadingZeros ?D))" by (simp add: zip_detect)
  have h4: "(3::nat) = maxLength_of Number_toString ''z''
      (fst (afterWhitespace Number_toString ?D [''z''] zip_table))"
    unfolding zip_whitespace by code_simp
  from leading_zeros_padded [OF h1 refl h3 h4] obtain cleaned log' where
    c: "cleanData parseFloat Number_toString zip_table [''z''] (Some ?D) = Some (cleaned, log')"
    and cells: "\<forall>i < length cleaned. \<forall>j < length [''z'']. [''z''] ! j = ''z'' \<longrightarrow>
        cleaned ! i ! j =
          Str (padStart 3 (CHR ''0'')
                (toString Number_toString
                  (obj_get (fst (afterWhitespace Number_toString ?D [''z''] zip_table) ! i) ''z''))) \<and>
        length (toString Number_toString (cleaned ! i ! j)) = 3"
    by blast
  from cells have "\<forall>i < length cleaned. \<forall>j < length [''z'']. [''z''] ! j = ''z'' \<longrightarrow>
        length (toString Number_toString (cleaned ! i ! j)) = 3"
    by blast
  with c have "\<exists>cleaned log'.
      cleanData parseFloat Number_toString zip_table [''z''] (Some ?D) = Some (cleaned, log') \<and>
      (\<forall>i < length cleaned. \<forall>j < length [''z'']. [''z''] ! j = ''z'' \<longrightarrow>
         length (toString Number_toString (cleaned ! i ! j)) = 3)"
    by blast
  with h1 h3 h4 zip_clean show ?thesis by (intro conjI)
qed

text \<open>
  C2 as first stated fails here: the report has \<open>duplicates = 1\<close>, the cleaned table
  has 2 of the 3 rows, and detection on it reports \<open>duplicates = 1\<close> again, for the
  whitespace step made the two remaining rows equal.
\<close>

theorem duplicates_redetect_counterexample:
  "duplicates (detectIssues parseFloat Number_toString dup_table [''c'']) = 1 \<and>
   length dup_table = 3 \<and>
   cleanData parseFloat Number_toString dup_table [''c'']
     (Some (detectIssues parseFloat Number_toString dup_table [''c''])) =
   Some ([[Str ''a''], [Str ''a'']],
         [\<lparr> message = Removed_duplicate_rows 1, type' = Success \<rparr>,
          \<lparr> message = Fixed_whitespace ''c'', type' = Success \<rparr>,
          \<lparr> message = Data_cleaning_complete, type' = Success \<rparr>]) \<and>
   duplicates (detectIssues parseFloat Number_toString [[Str ''a''], [Str ''a'']] [''c'']) = 1"
proof -
  have l: "length dup_table = 3" by (simp add: dup_table_def)
  have d: "duplicates (detectIssues parseFloat Number_toString dup_table [''c'']) = 1"
    by (simp add: dup_detect)
  from d l dup_clean dup_redetect show ?thesis by (intro conjI)
qed

lemma pair_detect:
  "detectIssues parseFloat Number_toString pair_table [''c''] =
     \<lparr> missing = [], duplicates = 1, whitespace = [], leadingZeros = [],
       outliers = [], dataTypes = [],
       structure' = \<lparr> columns = 1, rowCount = 2, ragged = None, emptyRows = None \<rparr> \<rparr>"
  by code_simp

lemma pair_clean:
  "cleanData parseFloat Number_toString pair_table [''c'']
     (Some (detectIssues parseFloat Number_toString pair_table [''c''])) =
   Some ([[Str ''a'']],
         [\<lparr> message = Removed_duplicate_rows 1, type' = Success \<rparr>,
          \<lparr> message = Data_cleaning_complete, type' = Success \<rparr>])"
  unfolding pair_detect by code_simp

theorem duplicates_removed_witness:
  "duplicates (detectIssues parseFloat Number_toString pair_table [''c'']) = 1 \<and> (0::nat) < 1 \<and>
   whitespace (detectIssues parseFloat Number_toString pair_table [''c'']) = [] \<and>
   leadingZeros (detectIssues parseFloat Number_toString pair_table [''c'']) = [] \<and>
   missing (detectIssues parseFloat Number_toString pair_table [''c'']) = [] \<and>
   cleanData parseFloat Number_toString pair_table [''c'']
     (Some (detectIssues parseFloat Number_toString pair_table [''c''])) =
   Some ([[Str ''a'']],
         [\<lparr> message = Removed_duplicate_rows 1, type' = Success \<rparr>,
          \<lparr> message = Data_cleaning_complete, type' = Success \<rparr>]) \<and>
   length [[Str ''a'']] = length pair_table - 1 \<and>
   duplicates (detectIssues parseFloat Number_toString [[Str ''a'']] [''c'']) = 0"
proof -
  let ?D = "detectIssues parseFloat Number_toString pair_table [''c'']"
  have h2: "duplicates ?D = 1" by (simp add: pair_detect)
  have h3: "(0::nat) < 1" by simp
  have e: "whitespace ?D = [] \<and> leadingZeros ?D = [] \<and> missing ?D = []"
    by (simp add: pair_detect)
  from duplicates_removed [OF refl h2 h3]
  show ?thesis using h2 e by (auto simp: pair_clean)
qed

lemma untrimmed_before:
  "afterLeadingZeros Number_toString missing_only [''c''] untrimmed_table =
   ([[(''c'', Str '' 5'')], [(''c'', Str '''')]], [])"
  by code_simp

lemma untrimmed_clean:
  "cleanData parseFloat Number_toString untrimmed_table [''c''] (Some missing_only) =
   Some ([[Str ''5''], [Num (Fin 5)]],
     [\<lparr> message = Filled_missing_values (Some 1) ''c'', type' = Success \<rparr>,
      \<lparr> message = Data_cleaning_complete, type' = Success \<rparr>])"
  by code_simp

theorem imputation_rewrites_column_witness:
  "untrimmed_table \<noteq> [] \<and> distinct (obj_keys (missing missing_only)) \<and>
   ''c'' \<in> set (obj_keys (missing missing_only)) \<and>
   whitespace missing_only = [] \<and>
   [Str '' 5''] = filter (nonEmpty_value Number_toString)
      (column_values ''c'' (fst (afterLeadingZeros Number_toString missing_only [''c''] untrimmed_table))) \<and>
   parseFloat (String_of Number_toString (Str '' 5'')) = Fin 5 \<and>
   untrimmed_table = [[Str '' 5''], [Str '''']] \<and>
   cleanData parseFloat Number_toString untrimmed_table [''c''] (Some missing_only) =
   Some ([[Str ''5''], [Num (Fin 5)]],
     [\<lparr> message = Filled_missing_values (Some 1) ''c'', type' = Success \<rparr>,
      \<lparr> message = Data_cleaning_complete, type' = Success \<rparr>]) \<and>
   fillValue parseFloat Number_toString [Str '' 5''] =
     Num (median (filter (\<lambda>val. \<not> isNaN val)
            (map (\<lambda>val. parseFloat (String_of Number_toString val)) [Str '' 5''])))"
proof -
  have h1: "untrimmed_table \<noteq> []" by (simp add: untrimmed_table_def)
  have h2: "distinct (obj_keys (missing missing_only))" by (simp add: missing_only_def)
  have h3: "''c'' \<in> set (obj_keys (missing missing_only))" by (simp add: missing_only_def)
  have h4: "[Str '' 5''] = filter (nonEmpty_value Number_toString)
      (column_values ''c'' (fst (afterLeadingZeros Number_toString missing_only [''c''] untrimmed_table)))"
    unfolding untrimmed_before by code_simp
  have h5: "[Str '' 5''] \<noteq> []" by simp
  have p: "parseFloat (String_of Number_toString (Str '' 5'')) = Fin 5"
    by code_simp
  have h6: "\<forall>v \<in> set [Str '' 5'']. \<not> isNaN (parseFloat (String_of Number_toString v))"
    using p by (simp add: isNaN_def)
  have w: "whitespace missing_only = []" by (simp add: missing_only_def)
  have t: "untrimmed_table = [[Str '' 5''], [Str '''']]" by (simp add: untrimmed_table_def)
  from imputation_rewrites_column [OF h1 h2 h3 h4 h5, of parseFloat]
  have "(\<forall>v \<in> set [Str '' 5'']. \<not> isNaN (parseFloat (String_of Number_toString v))) \<longrightarrow>
        fillValue parseFloat Number_toString [Str '' 5''] =
          Num (median (filter (\<lambda>val. \<not> isNaN val)
                 (map (\<lambda>val. parseFloat (String_of Number_toString val)) [Str '' 5''])))"
    by (rule conjunct2)
  with h6 have fv: "fillValue parseFloat Number_toString [Str '' 5''] =
      Num (median (filter (\<lambda>val. \<not> isNaN val)
             (map (\<lambda>val. parseFloat (String_of Number_toString val)) [Str '' 5''])))"
    by blast
  from h1 h2 h3 w h4 p t untrimmed_clean fv show ?thesis
    by (intro conjI)
qed

lemma shared_detect:
  "detectIssues parseFloat Number_toString (table_at shared_store 0) [''a''] = space_report"
  by code_simp

lemma shared_run:
  "cleanData_store parseFloat Number_toString shared_store 0 [''a''] (Some space_report) =
     ([Rows [1], Cells [Str '' x''], Rows [1],
       Entries [\<lparr> message = Fixed_whitespace ''a'', type' = Success \<rparr>,
                \<lparr> message = Data_cleaning_complete, type' = Success \<rparr>],
       Cells [Str ''x''], Rows [4]],
      Some (5, 3))"
  by code_simp

theorem input_table_unchanged_witness:
  "cleanData_store parseFloat Number_toString shared_store 0 [''a''] (Some space_report) =
     ([Rows [1], Cells [Str '' x''], Rows [1],
       Entries [\<lparr> message = Fixed_whitespace ''a'', type' = Success \<rparr>,
                \<lparr> message = Data_cleaning_complete, type' = Success \<rparr>],
       Cells [Str ''x''], Rows [4]],
      Some (5, 3)) \<and>
   rows_at shared_store 0 = [1] \<and> (1::nat) < length shared_store \<and>
   take (length shared_store)
     [Rows [1], Cells [Str '' x''], Rows [1],
      Entries [\<lparr> message = Fixed_whitespace ''a'', type' = Success \<rparr>,
               \<lparr> message = Data_cleaning_complete, type' = Success \<rparr>],
      Cells [Str ''x''], Rows [4]] = shared_store \<and>
   cleanData parseFloat Number_toString (table_at shared_store 0) [''a''] (Some space_report) =
     Some ([[Str ''x'']],
           [\<lparr> message = Fixed_whitespace ''a'', type' = Success \<rparr>,
            \<lparr> message = Data_cleaning_complete, type' = Success \<rparr>])"
proof -
  let ?s' = "[Rows [1], Cells [Str '' x''], Rows [1],
      Entries [\<lparr> message = Fixed_whitespace ''a'', type' = Success \<rparr>,
               \<lparr> message = Data_cleaning_complete, type' = Success \<rparr>],
      Cells [Str ''x''], Rows [4]]"
  have r: "rows_at shared_store 0 = [1]"
    by (simp add: shared_store_def rows_at_def)
  have l: "(1::nat) < length shared_store"
    by (simp add: shared_store_def)
  have wf: "\<forall>r \<in> set (rows_at shared_store 0). r < length shared_store"
    using r l by simp
  from input_table_unchanged [OF shared_run wf]
  have fr: "take (length shared_store) ?s' = shared_store"
    and pure: "cleanData parseFloat Number_toString (table_at shared_store 0) [''a''] (Some space_report) =
       Some (table_at ?s' 5, entries_at ?s' 3)"
    by blast+
  have "table_at ?s' 5 = [[Str ''x'']]" by (simp add: table_at_def rows_at_def cells_at_def)
  moreover have "entries_at ?s' 3 =
      [\<lparr> message = Fixed_whitespace ''a'', type' = Success \<rparr>,
       \<lparr> message = Data_cleaning_complete, type' = Success \<rparr>]"
    by (simp add: entries_at_def)
  ultimately show ?thesis using shared_run r l fr pure by simp
qed

text \<open>
  \<open>Infinity\<close> is a number for \<open>parseFloat\<close>: a cell that holds it stays among the
  numeric values, is counted as an outlier, and makes the fill value infinite.
\<close>

lemma infinity_is_numeric:
  "numericValues parseFloat Number_toString ''x''
     (toObjectData [''x''] [[Str ''Infinity''], [Str ''abc''], [Str ''-Infinity'']]) =
   [PosInf, NegInf]"
  by code_simp

lemma infinity_outliers:
  "outlier_count
     [Fin 1, Fin 2, Fin 3, Fin 4, Fin 5, Fin 6, Fin 7, Fin 8, Fin 9, Fin 10, PosInf, NegInf] = 2"
  by code_simp

lemma infinity_fill:
  "cleanData parseFloat Number_toString [[Str ''a'', Str ''Infinity''], [Str ''b'', Str '''']]
     [''k'', ''v'']
     (Some \<lparr> missing = [(''v'', 1)], duplicates = 0, whitespace = [], leadingZeros = [],
            outliers = [], dataTypes = [],
            structure' = \<lparr> columns = 2, rowCount = 2, ragged = None, emptyRows = None \<rparr> \<rparr>) =
   Some ([[Str ''a'', Str ''Infinity''], [Str ''b'', Num PosInf]],
     [\<lparr> message = Filled_missing_values (Some 1) ''v'', type' = Success \<rparr>,
      \<lparr> message = Data_cleaning_complete, type' = Success \<rparr>])"
  by code_simp

end
